theory Spec2Isabelle
  imports Main "HOL-Library.Word" "HOL-Library.Finite_Map"
begin

unbundle bit_operations_syntax

section \<open>The epoll multiplexer of \<^verbatim>\<open>2_epoll_server/epoll_linux.go\<close>\<close>

text \<open>
  The file defines one type, \<^verbatim>\<open>epoll\<close>, with the constructor \<^verbatim>\<open>MkEpoll\<close>, the methods
  \<^verbatim>\<open>Add\<close>, \<^verbatim>\<open>Remove\<close> and \<^verbatim>\<open>Wait\<close>, and the helper \<^verbatim>\<open>socketFD\<close>. Each of them is a
  function here, in the order of the source. What the source calls but does not define
  (Go's \<^verbatim>\<open>reflect\<close> and \<^verbatim>\<open>sync\<close> packages, the \<^verbatim>\<open>unix\<close> system call wrappers and the
  kernel behind them) is modelled in the sections that say so.

  Go's \<^verbatim>\<open>int\<close> is \<^typ>\<open>int\<close>: the only conversion of the source that can lose bits,
  \<^verbatim>\<open>int32(fd)\<close>, is written as \<^term>\<open>word_of_int :: int \<Rightarrow> 32 word\<close>, and
  \<^verbatim>\<open>int(events[i].Fd)\<close> reads the 32-bit field back signed, with \<^const>\<open>sint\<close>.
\<close>

subsection \<open>Failures\<close>

text \<open>
  A Go function of the source ends in one of three ways: it returns (an \<^verbatim>\<open>error\<close> that is
  \<^verbatim>\<open>nil\<close> or a system call's errno), it panics, or it never returns (blocked in a system
  call or on the lock). A panic is \<open>Inl\<close>, a return is \<open>Inr\<close>, and not returning is
  \<open>None\<close> of the enclosing option.
\<close>

datatype errno =
  EINTR | EBADF | EEXIST | ENOENT | ENOMEM | ENOSPC | EPERM | EINVAL | EFAULT | ELOOP | EMFILE | ENFILE

datatype panic =
    ReflectPanic       \<comment> \<open>a \<^verbatim>\<open>reflect.Value\<close> method called on a value of the wrong kind\<close>
  | IndexOutOfRange    \<comment> \<open>a slice indexed beyond its length\<close>
  | UnlockOfUnlocked   \<comment> \<open>\<^verbatim>\<open>Unlock\<close> or \<^verbatim>\<open>RUnlock\<close> of a mutex that is not held\<close>

subsection \<open>Connection handles as \<^verbatim>\<open>reflect\<close> sees them\<close>

text \<open>
  Go's \<^verbatim>\<open>reflect\<close> package is not part of the repository; the four operations
  \<^verbatim>\<open>socketFD\<close> uses follow the package documentation. A \<^verbatim>\<open>reflect.Value\<close> is the zero
  Value (\<open>Invalid\<close>), a signed integer, a nil or non-nil pointer, a struct with named
  fields, a field of interface type holding a value, or a value of any other kind.
  Fields promoted from embedded structs are not modelled: a struct answers only for the
  fields listed in it.
\<close>

datatype rvalue =
    Invalid
  | IntV int
  | NilPtr
  | Ptr rvalue
  | Struct "(string \<times> rvalue) list"
  | Iface rvalue
  | Other

text \<open>
  A \<^verbatim>\<open>net.Conn\<close> is an interface value: \<^verbatim>\<open>nil\<close> (the zero value of the type), or a dynamic
  value. \<^verbatim>\<open>reflect.ValueOf(nil)\<close> is the zero Value.
\<close>

datatype conn = NilConn | Conn rvalue

fun ValueOf :: "conn \<Rightarrow> rvalue" where
  "ValueOf NilConn = Invalid"
| "ValueOf (Conn v) = v"

text \<open>
  \<^verbatim>\<open>reflect.Indirect\<close>: the value a pointer points to; the zero Value for a nil pointer;
  the value itself when it is not a pointer.
\<close>

fun Indirect :: "rvalue \<Rightarrow> rvalue" where
  "Indirect (Ptr v) = v"
| "Indirect NilPtr = Invalid"
| "Indirect v = v"

text \<open>
  \<^verbatim>\<open>Value.FieldByName\<close>: the field of that name, the zero Value if the struct has none; it
  panics if the value's kind is not Struct.
\<close>

fun FieldByName :: "rvalue \<Rightarrow> string \<Rightarrow> panic + rvalue" where
  "FieldByName (Struct fields) name =
     (case map_of fields name of None \<Rightarrow> Inr Invalid | Some v \<Rightarrow> Inr v)"
| "FieldByName _ name = Inl ReflectPanic"

text \<open>\<^verbatim>\<open>Value.Int\<close>: the underlying integer; it panics if the kind is not a signed integer.\<close>

fun Int_value :: "rvalue \<Rightarrow> panic + int" where
  "Int_value (IntV i) = Inr i"
| "Int_value _ = Inl ReflectPanic"

text \<open>
  \<^verbatim>\<open>socketFD\<close> (lines 98 to 113). It has no error result: each reflective step either
  yields a value or panics.
\<close>

definition socketFD :: "conn \<Rightarrow> panic + int" where
  "socketFD c =
     (case FieldByName (Indirect (ValueOf c)) ''conn'' of
        Inl p \<Rightarrow> Inl p
      | Inr tcpConn \<Rightarrow>
          (case FieldByName tcpConn ''fd'' of
             Inl p \<Rightarrow> Inl p
           | Inr fdVal \<Rightarrow>
               (case FieldByName (Indirect fdVal) ''pfd'' of
                  Inl p \<Rightarrow> Inl p
                | Inr pfdVal \<Rightarrow>
                    (case FieldByName pfdVal ''Sysfd'' of
                       Inl p \<Rightarrow> Inl p
                     | Inr sysfd \<Rightarrow> Int_value sysfd))))"

text \<open>
  The shape of a \<^verbatim>\<open>*net.TCPConn\<close>: a pointer to a struct whose field \<^verbatim>\<open>conn\<close> has a field
  \<^verbatim>\<open>fd\<close>, a pointer to a struct whose field \<^verbatim>\<open>pfd\<close> holds the integer \<^verbatim>\<open>Sysfd\<close>.
\<close>

definition TCPConn :: "int \<Rightarrow> conn" where
  "TCPConn sysfd =
     Conn (Ptr (Struct [(''conn'',
       Struct [(''fd'', Ptr (Struct [(''pfd'', Struct [(''Sysfd'', IntV sysfd)])]))])]))"

text \<open>
  The spec's Descriptor Accessor, \<^verbatim>\<open>extract_descriptor(handle) -> descriptor | error\<close>,
  stated on the shape of the handle alone, to compare \<^verbatim>\<open>socketFD\<close> with: a handle exposes
  the descriptor \<open>d\<close> when, a pointer followed where there is one, it is a struct whose
  field \<^verbatim>\<open>conn\<close> has a field \<^verbatim>\<open>fd\<close> that leads to a struct whose field \<^verbatim>\<open>pfd\<close> has the
  integer field \<^verbatim>\<open>Sysfd\<close> \<open>d\<close>. A \<^verbatim>\<open>nil\<close> handle, a nil pointer, a missing field, a
  value that is no struct and a \<^verbatim>\<open>Sysfd\<close> that is no integer expose none.
\<close>

fun deref :: "rvalue \<Rightarrow> rvalue option" where
  "deref (Ptr v) = Some v"
| "deref NilPtr = None"
| "deref v = Some v"

fun field :: "string \<Rightarrow> rvalue \<Rightarrow> rvalue option" where
  "field name (Struct fs) = map_of fs name"
| "field name _ = None"

fun int_of :: "rvalue \<Rightarrow> int option" where
  "int_of (IntV i) = Some i"
| "int_of _ = None"

definition extract_descriptor :: "conn \<Rightarrow> int option" where
  "extract_descriptor c =
     (case c of
        NilConn \<Rightarrow> None
      | Conn v \<Rightarrow>
          Option.bind (deref v) (\<lambda>s.
          Option.bind (field ''conn'' s) (\<lambda>inner.
          Option.bind (field ''fd'' inner) (\<lambda>p.
          Option.bind (deref p) (\<lambda>netfd.
          Option.bind (field ''pfd'' netfd) (\<lambda>pfd.
          Option.bind (field ''Sysfd'' pfd) int_of))))))"

subsection \<open>The reader-writer lock\<close>

text \<open>
  \<^verbatim>\<open>sync.RWMutex\<close> is Go's standard library. Its state is whether a writer holds it and how
  many readers do. \<^verbatim>\<open>Lock\<close> waits until nobody holds it, \<^verbatim>\<open>RLock\<close> until no writer does;
  in a run where no other call is in progress, waiting for a lock that is held is waiting
  forever (\<open>None\<close>). Unlocking a mutex that is not held is a fatal error.
\<close>

record RWMutex =
  writer :: bool
  readers :: nat

definition Lock :: "RWMutex \<Rightarrow> RWMutex option" where
  "Lock l = (if \<not> writer l \<and> readers l = 0 then Some (l\<lparr>writer := True\<rparr>) else None)"

definition Unlock :: "RWMutex \<Rightarrow> panic + RWMutex" where
  "Unlock l = (if writer l then Inr (l\<lparr>writer := False\<rparr>) else Inl UnlockOfUnlocked)"

definition RLock :: "RWMutex \<Rightarrow> RWMutex option" where
  "RLock l = (if \<not> writer l then Some (l\<lparr>readers := readers l + 1\<rparr>) else None)"

definition RUnlock :: "RWMutex \<Rightarrow> panic + RWMutex" where
  "RUnlock l = (if 0 < readers l then Inr (l\<lparr>readers := readers l - 1\<rparr>) else Inl UnlockOfUnlocked)"

subsection \<open>The OS notifier\<close>

text \<open>
  Modelled from the spec: the OS notifier, that is the kernel's epoll instance and the
  wrappers \<^verbatim>\<open>unix.EpollCreate1\<close>, \<^verbatim>\<open>unix.EpollCtl\<close> and \<^verbatim>\<open>unix.EpollWait\<close> of
  \<^verbatim>\<open>golang.org/x/sys/unix\<close>, which the source calls and does not define. The spec's words:
  registering fails "if the OS call fails", re-adding a registered descriptor is
  "propagated from the OS call, typically idempotent-fail", deregistering fails "if the
  descriptor was never registered or the OS call otherwise fails", and a wait with a
  timeout returns "an explicit no events result rather than blocking forever".

  The notifier's state is its interest list: the registered descriptors, each with the
  event record given at registration.
\<close>

record EpollEvent =
  Events :: "32 word"
  Fd :: "32 word"      \<comment> \<open>\<^verbatim>\<open>int32\<close>, read with \<^const>\<open>sint\<close>\<close>
  Pad :: "32 word"

type_synonym notifier = "(int, EpollEvent) fmap"

datatype ctl_op = EPOLL_CTL_ADD | EPOLL_CTL_DEL

definition POLLIN :: "32 word" where "POLLIN = 0x1"
definition POLLHUP :: "32 word" where "POLLHUP = 0x10"

text \<open>
  Modelled from the spec: \<^verbatim>\<open>unix.EpollCtl(epfd, op, fd, event)\<close>. The first argument
  \<open>fault\<close> is the environment's part: \<open>Some er\<close> makes the call fail with \<open>er\<close> whatever the
  interest list holds (a bad or closed descriptor, no memory, a limit reached). Without a
  fault, adding a registered descriptor fails with \<open>EEXIST\<close>, deleting one that is not
  registered fails with \<open>ENOENT\<close>. A failed call leaves the interest list as it was. The
  notifier value stands for the instance that \<open>epfd\<close> names.
\<close>

definition EpollCtl ::
  "errno option \<Rightarrow> notifier \<Rightarrow> int \<Rightarrow> ctl_op \<Rightarrow> int \<Rightarrow> EpollEvent option \<Rightarrow> errno option \<times> notifier"
where
  "EpollCtl fault k epfd op sysfd event =
     (case fault of
        Some er \<Rightarrow> (Some er, k)
      | None \<Rightarrow>
          (case op of
             EPOLL_CTL_ADD \<Rightarrow>
               (case event of
                  None \<Rightarrow> (Some EFAULT, k)
                | Some ev \<Rightarrow>
                    (case fmlookup k sysfd of
                       Some _ \<Rightarrow> (Some EEXIST, k)
                     | None \<Rightarrow> (None, fmupd sysfd ev k)))
           | EPOLL_CTL_DEL \<Rightarrow>
               (case fmlookup k sysfd of
                  None \<Rightarrow> (Some ENOENT, k)
                | Some _ \<Rightarrow> (None, fmdrop sysfd k))))"

text \<open>
  Modelled from the spec: what one call of the wait system call meets. Some descriptors are
  ready (at least one: the first, and the rest, in the kernel's order); or nothing is ready
  and no signal arrives for as long as the call is prepared to wait; or the call fails, with
  \<open>EINTR\<close> when a signal interrupted it.
\<close>

datatype wait_event = Ready EpollEvent "EpollEvent list" | Quiet | Fails errno

text \<open>
  Modelled from the spec: \<^verbatim>\<open>unix.EpollWait(epfd, events, msec)\<close>. The wrapper passes the
  length of \<open>events\<close> to the kernel as the most events to report, and \<open>msec\<close> as the timeout
  in milliseconds (negative: none). The result is the count \<open>n\<close>, the buffer with its first
  \<open>n\<close> elements written, and the error; \<open>n\<close> is \<open>-1\<close> when the call fails. With no timeout
  and nothing ever ready the call does not return.
\<close>

definition EpollWait ::
  "wait_event \<Rightarrow> int \<Rightarrow> EpollEvent list \<Rightarrow> int \<Rightarrow> (int \<times> EpollEvent list \<times> errno option) option"
where
  "EpollWait happening epfd events msec =
     (if events = [] then Some (- 1, events, Some EINVAL)
      else case happening of
        Fails er \<Rightarrow> Some (- 1, events, Some er)
      | Ready ev evs \<Rightarrow>
          (let m = min (length (ev # evs)) (length events)
           in Some (int m, take m (ev # evs) @ drop m events, None))
      | Quiet \<Rightarrow> if msec < 0 then None else Some (0, events, None))"

subsection \<open>The multiplexer\<close>

text \<open>The struct \<^verbatim>\<open>epoll\<close> (lines 16 to 23); the lock is held by value here.\<close>

record epoll =
  fd :: int
  connections :: "(int, conn) fmap"
  lock :: RWMutex

text \<open>
  What an operation can change: the struct, the notifier's interest list, and the lines
  written by \<^verbatim>\<open>log.Printf\<close> (each is the connection count it prints).
\<close>

record world =
  ep :: epoll
  interest :: notifier
  printed :: "nat list"

text \<open>\<^verbatim>\<open>len(e.connections)\<close>.\<close>

definition len :: "(int, conn) fmap \<Rightarrow> nat" where
  "len m = card (fmdom' m)"

text \<open>\<^verbatim>\<open>e.connections[k]\<close> as an expression: the zero value \<^verbatim>\<open>nil\<close> when the key is absent.\<close>

definition index :: "(int, conn) fmap \<Rightarrow> int \<Rightarrow> conn" where
  "index m k = (case fmlookup m k of None \<Rightarrow> NilConn | Some c \<Rightarrow> c)"

text \<open>
  \<^verbatim>\<open>MkEpoll\<close> (lines 25 to 37), given what \<^verbatim>\<open>unix.EpollCreate1(0)\<close> answers: a new
  descriptor, whose interest list is empty, or an error.
\<close>

definition MkEpoll :: "errno + int \<Rightarrow> errno + world" where
  "MkEpoll created =
     (case created of
        Inl er \<Rightarrow> Inl er
      | Inr newfd \<Rightarrow>
          Inr \<lparr>ep = \<lparr>fd = newfd, connections = fmempty, lock = \<lparr>writer = False, readers = 0\<rparr>\<rparr>,
               interest = fmempty, printed = []\<rparr>)"

text \<open>The lines 51 to 53 and 69 to 71: log the count when it is a multiple of 100.\<close>

definition log_total :: "(int, conn) fmap \<Rightarrow> nat list \<Rightarrow> nat list" where
  "log_total m out = (if len m mod 100 = 0 then out @ [len m] else out)"

text \<open>The event record of line 42: \<^verbatim>\<open>&unix.EpollEvent{Events: unix.POLLIN | unix.POLLHUP, Fd: int32(fd)}\<close>.\<close>

definition interest_event :: "int \<Rightarrow> EpollEvent" where
  "interest_event sysfd = \<lparr>Events = POLLIN OR POLLHUP, Fd = word_of_int sysfd, Pad = 0\<rparr>"

text \<open>\<^verbatim>\<open>Add\<close> (lines 39 to 55).\<close>

definition Add :: "errno option \<Rightarrow> conn \<Rightarrow> world \<Rightarrow> ((panic + errno option) \<times> world) option" where
  "Add fault c w =
     (case socketFD c of
        Inl p \<Rightarrow> Some (Inl p, w)
      | Inr sysfd \<Rightarrow>
          (case EpollCtl fault (interest w) (fd (ep w)) EPOLL_CTL_ADD sysfd
                  (Some (interest_event sysfd)) of
             (Some er, k) \<Rightarrow> Some (Inr (Some er), w\<lparr>interest := k\<rparr>)
           | (None, k) \<Rightarrow>
               (case Lock (lock (ep w)) of
                  None \<Rightarrow> None
                | Some held \<Rightarrow>
                    (let m = fmupd sysfd c (connections (ep w));
                         out = log_total m (printed w)
                     in case Unlock held of
                          Inl p \<Rightarrow> Some (Inl p, \<lparr>ep = (ep w)\<lparr>connections := m, lock := held\<rparr>,
                                                 interest = k, printed = out\<rparr>)
                        | Inr free \<Rightarrow> Some (Inr None, \<lparr>ep = (ep w)\<lparr>connections := m, lock := free\<rparr>,
                                                       interest = k, printed = out\<rparr>)))))"

text \<open>\<^verbatim>\<open>Remove\<close> (lines 57 to 73).\<close>

definition Remove :: "errno option \<Rightarrow> conn \<Rightarrow> world \<Rightarrow> ((panic + errno option) \<times> world) option" where
  "Remove fault c w =
     (case socketFD c of
        Inl p \<Rightarrow> Some (Inl p, w)
      | Inr sysfd \<Rightarrow>
          (case EpollCtl fault (interest w) (fd (ep w)) EPOLL_CTL_DEL sysfd None of
             (Some er, k) \<Rightarrow> Some (Inr (Some er), w\<lparr>interest := k\<rparr>)
           | (None, k) \<Rightarrow>
               (case Lock (lock (ep w)) of
                  None \<Rightarrow> None
                | Some held \<Rightarrow>
                    (let m = fmdrop sysfd (connections (ep w));
                         out = log_total m (printed w)
                     in case Unlock held of
                          Inl p \<Rightarrow> Some (Inl p, \<lparr>ep = (ep w)\<lparr>connections := m, lock := held\<rparr>,
                                                 interest = k, printed = out\<rparr>)
                        | Inr free \<Rightarrow> Some (Inr None, \<lparr>ep = (ep w)\<lparr>connections := m, lock := free\<rparr>,
                                                       interest = k, printed = out\<rparr>)))))"

text \<open>
  The loop of \<^verbatim>\<open>Wait\<close> (lines 90 to 93): \<open>i\<close> runs from its start up to \<open>n\<close>, each round
  appends \<^verbatim>\<open>e.connections[int(events[i].Fd)]\<close>. Indexing the slice outside its length
  panics.
\<close>

function Wait_loop ::
  "(int, conn) fmap \<Rightarrow> EpollEvent list \<Rightarrow> int \<Rightarrow> int \<Rightarrow> conn list \<Rightarrow> panic + conn list"
where
  "Wait_loop m events n i acc =
     (if i < n then
        (if 0 \<le> i \<and> nat i < length events
         then Wait_loop m events n (i + 1) (acc @ [index m (sint (Fd (events ! nat i)))])
         else Inl IndexOutOfRange)
      else Inr acc)"
  by pat_completeness auto
termination
  by (relation "measure (\<lambda>(m, events, n, i, acc). nat (n - i))") auto

declare Wait_loop.simps [simp del]

text \<open>\<^verbatim>\<open>make([]unix.EpollEvent, 100)\<close>: a slice of zero values.\<close>

definition make_events :: "nat \<Rightarrow> EpollEvent list" where
  "make_events k = replicate k \<lparr>Events = 0, Fd = 0, Pad = 0\<rparr>"

text \<open>
  \<^verbatim>\<open>Wait\<close> from the label \<^verbatim>\<open>retry\<close> on (lines 77 to 94). \<open>env\<close> says what each call of the
  wait system call meets, \<open>i\<close> counts the calls made so far. The \<^verbatim>\<open>goto retry\<close> is the
  recursive call; nothing bounds the number of rounds. The deferred \<^verbatim>\<open>RUnlock\<close> runs when
  the function leaves, also by a panic. The returned slice is \<^verbatim>\<open>nil\<close>, the
  empty list, when nothing was appended and on an error.
\<close>

partial_function (option) Wait_retry ::
  "EpollEvent list \<Rightarrow> world \<Rightarrow> (nat \<Rightarrow> wait_event) \<Rightarrow> nat
     \<Rightarrow> ((panic + conn list \<times> errno option) \<times> world) option"
where
  "Wait_retry events w env i =
     (case EpollWait (env i) (fd (ep w)) events 100 of
        None \<Rightarrow> None
      | Some (n, events', err) \<Rightarrow>
          (case err of
             Some er \<Rightarrow>
               if er = EINTR then Wait_retry events' w env (Suc i)
               else Some (Inr ([], Some er), w)
           | None \<Rightarrow>
               (case RLock (lock (ep w)) of
                  None \<Rightarrow> None
                | Some held \<Rightarrow>
                    (let looped = Wait_loop (connections (ep w)) events' n 0 []
                     in case RUnlock held of
                          Inl p \<Rightarrow> Some (Inl p, w\<lparr>ep := (ep w)\<lparr>lock := held\<rparr>\<rparr>)
                        | Inr free \<Rightarrow>
                            Some (case looped of Inl p \<Rightarrow> Inl p | Inr conns \<Rightarrow> Inr (conns, None),
                                  w\<lparr>ep := (ep w)\<lparr>lock := free\<rparr>\<rparr>)))))"

text \<open>\<^verbatim>\<open>Wait\<close> (lines 75 to 95): the buffer of 100 events is made once, before the label.\<close>

definition Wait ::
  "world \<Rightarrow> (nat \<Rightarrow> wait_event) \<Rightarrow> nat \<Rightarrow> ((panic + conn list \<times> errno option) \<times> world) option"
where
  "Wait w env i = Wait_retry (make_events 100) w env i"

text \<open>Whether a call returned an error value to its caller (and did not panic or block).\<close>

definition returned_error :: "((panic + errno option) \<times> world) option \<Rightarrow> bool" where
  "returned_error outcome =
     (case outcome of Some (Inr (Some er), w) \<Rightarrow> True | _ \<Rightarrow> False)"

subsection \<open>Reachable states\<close>

text \<open>
  The states a multiplexer can be in between calls: the one \<^verbatim>\<open>MkEpoll\<close> returns, and the
  state any call of \<^verbatim>\<open>Add\<close>, \<^verbatim>\<open>Remove\<close> or \<^verbatim>\<open>Wait\<close> leaves, whatever the handle, the
  environment and the outcome of the call.
\<close>

inductive reachable :: "world \<Rightarrow> bool" where
  created: "MkEpoll made = Inr w \<Longrightarrow> reachable w"
| added: "reachable w \<Longrightarrow> Add fault c w = Some (r, w') \<Longrightarrow> reachable w'"
| removed: "reachable w \<Longrightarrow> Remove fault c w = Some (r, w') \<Longrightarrow> reachable w'"
| waited: "reachable w \<Longrightarrow> Wait w env i = Some (res, w') \<Longrightarrow> reachable w'"

subsection \<open>Example inputs\<close>

text \<open>The multiplexer \<^verbatim>\<open>MkEpoll\<close> returns when the kernel hands out descriptor 3.\<close>

definition started :: world where
  "started = \<lparr>ep = \<lparr>fd = 3, connections = fmempty, lock = \<lparr>writer = False, readers = 0\<rparr>\<rparr>,
              interest = fmempty, printed = []\<rparr>"

text \<open>The same multiplexer once the TCP connection on descriptor 7 has been added.\<close>

definition serving :: world where
  "serving = \<lparr>ep = \<lparr>fd = 3, connections = fmupd 7 (TCPConn 7) fmempty,
                      lock = \<lparr>writer = False, readers = 0\<rparr>\<rparr>,
              interest = fmupd 7 (interest_event 7) fmempty, printed = []\<rparr>"

text \<open>The multiplexer after that connection has been removed again: one line was logged.\<close>

definition emptied :: world where
  "emptied = \<lparr>ep = \<lparr>fd = 3, connections = fmempty, lock = \<lparr>writer = False, readers = 0\<rparr>\<rparr>,
              interest = fmempty, printed = [0]\<rparr>"

text \<open>
  A handle with no descriptor inside: a pointer to a struct that has no field \<^verbatim>\<open>conn\<close>
  (an in-memory pipe end, say).
\<close>

definition pipe_end :: conn where
  "pipe_end = Conn (Ptr (Struct [(''rd'', Other), (''wr'', Other)]))"

text \<open>
  Two more: a connection whose \<^verbatim>\<open>pfd\<close> has no field \<^verbatim>\<open>Sysfd\<close>, and one whose \<^verbatim>\<open>fd\<close>
  is a nil pointer.
\<close>

definition hollow :: conn where
  "hollow = Conn (Ptr (Struct [(''conn'', Struct [(''fd'', Ptr (Struct [(''pfd'', Struct [])]))])]))"

definition unopened :: conn where
  "unopened = Conn (Ptr (Struct [(''conn'', Struct [(''fd'', NilPtr)])]))"

text \<open>
  A second handle on descriptor 7, not the value \<^term>\<open>TCPConn 7\<close>: its struct carries one
  more field.
\<close>

definition other_handle :: conn where
  "other_handle =
     Conn (Ptr (Struct [(''conn'',
       Struct [(''fd'', Ptr (Struct [(''pfd'', Struct [(''Sysfd'', IntV 7)]), (''net'', Other)]))])]))"

text \<open>Environments of \<^verbatim>\<open>Wait\<close>: what the successive wait system calls meet.\<close>

definition never_ready :: "nat \<Rightarrow> wait_event" where
  "never_ready i = Quiet"

definition interrupted_twice :: "nat \<Rightarrow> wait_event" where
  "interrupted_twice i =
     (if i < 2 then Fails EINTR else Ready (interest_event 7) [interest_event 9])"

definition always_interrupted :: "nat \<Rightarrow> wait_event" where
  "always_interrupted i = Fails EINTR"

definition interrupted_then_broken :: "nat \<Rightarrow> wait_event" where
  "interrupted_then_broken i = (if i < 1 then Fails EINTR else Fails EBADF)"

definition crowded :: "nat \<Rightarrow> wait_event" where
  "crowded i = Ready (interest_event 7) (replicate 100 (interest_event 9))"

subsection \<open>Calls of \<^verbatim>\<open>Add\<close> running at the same time\<close>

text \<open>
  Several execution contexts, each inside one call of \<^verbatim>\<open>Add\<close>, share the multiplexer. A
  call advances in steps, each one atomic: the system call (lines 41 to 45, with the
  descriptor resolved first); taking the lock (line 47), which can only happen while nobody
  holds it; the assignment to the map (line 50); the deferred unlock (line 48). The
  assignment \<^verbatim>\<open>e.connections[fd] = conn\<close> is not atomic in Go: it is two steps here, reading
  the map and storing the map read with the new entry in it (the log line goes with the
  store). A write that another call makes between the two is lost, whatever the lock says:
  nothing in the steps of the write looks at the lock. Where a call stands:
\<close>

datatype add_pc =
    Entered                            \<comment> \<open>nothing done yet\<close>
  | Registered int                     \<comment> \<open>the descriptor is registered; about to lock\<close>
  | Holding int                        \<comment> \<open>past \<^verbatim>\<open>Lock\<close>; about to read the map\<close>
  | Writing int "(int, conn) fmap"     \<comment> \<open>has read this map; about to store\<close>
  | Written                            \<comment> \<open>map stored; about to unlock\<close>
  | Ended "panic + errno option"       \<comment> \<open>left the call, with this outcome\<close>

text \<open>A call: its argument, the fault its system call meets, and where it stands.\<close>

record call =
  handle :: conn
  ctl_fault :: "errno option"
  pc :: add_pc

text \<open>One step of a call; \<open>None\<close> when the call cannot move (the lock is held, or it has ended).\<close>

definition Add_step :: "call \<Rightarrow> world \<Rightarrow> (call \<times> world) option" where
  "Add_step t w =
     (case pc t of
        Entered \<Rightarrow>
          (case socketFD (handle t) of
             Inl p \<Rightarrow> Some (t\<lparr>pc := Ended (Inl p)\<rparr>, w)
           | Inr sysfd \<Rightarrow>
               (case EpollCtl (ctl_fault t) (interest w) (fd (ep w)) EPOLL_CTL_ADD sysfd
                       (Some (interest_event sysfd)) of
                  (Some er, k) \<Rightarrow> Some (t\<lparr>pc := Ended (Inr (Some er))\<rparr>, w\<lparr>interest := k\<rparr>)
                | (None, k) \<Rightarrow> Some (t\<lparr>pc := Registered sysfd\<rparr>, w\<lparr>interest := k\<rparr>)))
      | Registered sysfd \<Rightarrow>
          (case Lock (lock (ep w)) of
             None \<Rightarrow> None
           | Some held \<Rightarrow> Some (t\<lparr>pc := Holding sysfd\<rparr>, w\<lparr>ep := (ep w)\<lparr>lock := held\<rparr>\<rparr>))
      | Holding sysfd \<Rightarrow> Some (t\<lparr>pc := Writing sysfd (connections (ep w))\<rparr>, w)
      | Writing sysfd seen \<Rightarrow>
          (let m = fmupd sysfd (handle t) seen
           in Some (t\<lparr>pc := Written\<rparr>,
                    w\<lparr>ep := (ep w)\<lparr>connections := m\<rparr>, printed := log_total m (printed w)\<rparr>))
      | Written \<Rightarrow>
          (case Unlock (lock (ep w)) of
             Inl p \<Rightarrow> Some (t\<lparr>pc := Ended (Inl p)\<rparr>, w)
           | Inr free \<Rightarrow> Some (t\<lparr>pc := Ended (Inr None)\<rparr>, w\<lparr>ep := (ep w)\<lparr>lock := free\<rparr>\<rparr>))
      | Ended r \<Rightarrow> None)"

text \<open>
  A schedule names, step after step, the call that moves next. A call that cannot move, or
  a number that names no call, leaves the state as it is.
\<close>

fun run :: "nat list \<Rightarrow> call list \<times> world \<Rightarrow> call list \<times> world" where
  "run [] s = s"
| "run (i # sched) (ts, w) =
     (if i < length ts then
        (case Add_step (ts ! i) w of
           None \<Rightarrow> run sched (ts, w)
         | Some (t, w') \<Rightarrow> run sched (ts[i := t], w'))
      else run sched (ts, w))"

text \<open>A call about to start.\<close>

definition enter :: "errno option \<times> conn \<Rightarrow> call" where
  "enter req = \<lparr>handle = snd req, ctl_fault = fst req, pc = Entered\<rparr>"

text \<open>
  The same calls made one after another with \<^verbatim>\<open>Add\<close> itself, each returning \<^verbatim>\<open>nil\<close>
  before the next starts.
\<close>

fun Add_all :: "(errno option \<times> conn) list \<Rightarrow> world \<Rightarrow> world option" where
  "Add_all [] w = Some w"
| "Add_all (req # reqs) w =
     (case Add (fst req) (snd req) w of
        Some (Inr None, w') \<Rightarrow> Add_all reqs w'
      | _ \<Rightarrow> None)"


definition three_adds :: "(errno option \<times> conn) list" where
  "three_adds = [(None, TCPConn 7), (None, TCPConn 8), (None, TCPConn 9)]"

definition interleaved :: "nat list" where
  "interleaved = [0, 1, 2, 1, 0, 1, 1, 2, 1, 0, 2, 0, 0, 0, 2, 2, 2, 2]"

text \<open>
  What a call's position says: the descriptor it carries, whether its system call has
  succeeded, whether its entry is stored, whether it is between \<^verbatim>\<open>Lock\<close> and
  \<^verbatim>\<open>Unlock\<close>.
\<close>

fun known :: "add_pc \<Rightarrow> int option" where
  "known (Registered d) = Some d"
| "known (Holding d) = Some d"
| "known (Writing d seen) = Some d"
| "known _ = None"

fun past_ctl :: "add_pc \<Rightarrow> bool" where
  "past_ctl Entered = False"
| "past_ctl (Ended r) = (r = Inr None)"
| "past_ctl _ = True"

fun past_write :: "add_pc \<Rightarrow> bool" where
  "past_write Written = True"
| "past_write (Ended r) = (r = Inr None)"
| "past_write _ = False"

fun holding :: "add_pc \<Rightarrow> bool" where
  "holding (Holding d) = True"
| "holding (Writing d seen) = True"
| "holding Written = True"
| "holding _ = False"

definition holders :: "call list \<Rightarrow> nat" where
  "holders ts = length (filter (\<lambda>t. holding (pc t)) ts)"

text \<open>
  What holds throughout a run of the calls \<open>ts\<close>, with the handles \<open>cs\<close> and the faults
  \<open>fs\<close>. Of the table: a call knows its handle's descriptor; the map a call has read is
  the table (nobody wrote since); every key is the descriptor of one of the handles; a
  call past its store has its entry. Of the interest list: every entry is one of the
  handles' descriptors, with the event \<^verbatim>\<open>Add\<close> registers; a call past its system call met
  no fault and has its entry. Of the lock: no reader, and a writer exactly when one call is
  between \<^verbatim>\<open>Lock\<close> and \<^verbatim>\<open>Unlock\<close>.
\<close>

definition table_ok :: "conn list \<Rightarrow> call list \<Rightarrow> world \<Rightarrow> bool" where
  "table_ok cs ts w \<longleftrightarrow>
     map handle ts = cs \<and>
     (\<forall>i<length ts. \<forall>d. known (pc (ts ! i)) = Some d \<longrightarrow> socketFD (cs ! i) = Inr d) \<and>
     (\<forall>i<length ts. \<forall>d seen. pc (ts ! i) = Writing d seen \<longrightarrow> seen = connections (ep w)) \<and>
     (\<forall>d c. fmlookup (connections (ep w)) d = Some c \<longrightarrow>
        (\<exists>i<length ts. socketFD (cs ! i) = Inr d)) \<and>
     (\<forall>i<length ts. past_write (pc (ts ! i)) \<longrightarrow>
        (\<exists>d. socketFD (cs ! i) = Inr d \<and> fmlookup (connections (ep w)) d = Some (cs ! i)))"

definition notifier_ok :: "errno option list \<Rightarrow> conn list \<Rightarrow> call list \<Rightarrow> world \<Rightarrow> bool" where
  "notifier_ok fs cs ts w \<longleftrightarrow>
     map ctl_fault ts = fs \<and>
     (\<forall>d e. fmlookup (interest w) d = Some e \<longrightarrow>
        e = interest_event d \<and> (\<exists>i<length ts. socketFD (cs ! i) = Inr d)) \<and>
     (\<forall>i<length ts. past_ctl (pc (ts ! i)) \<longrightarrow>
        fs ! i = None \<and>
        (\<exists>d. socketFD (cs ! i) = Inr d \<and> fmlookup (interest w) d = Some (interest_event d)))"

definition exclusive :: "int \<Rightarrow> call list \<Rightarrow> world \<Rightarrow> bool" where
  "exclusive epfd ts w \<longleftrightarrow>
     fd (ep w) = epfd \<and> readers (lock (ep w)) = 0 \<and>
     holders ts = (if writer (lock (ep w)) then 1 else 0)"

section \<open>Properties\<close>

subsection \<open>Auxiliary facts\<close>

lemma Wait_loop_eq:
  "0 \<le> i \<Longrightarrow> n \<le> int (length events) \<Longrightarrow>
   Wait_loop m events n i acc =
     Inr (acc @ map (\<lambda>ev. index m (sint (Fd ev))) (take (nat (n - i)) (drop (nat i) events)))"
proof (induction m events n i acc rule: Wait_loop.induct)
  case (1 m events n i acc)
  show ?case
  proof (cases "i < n")
    case False
    then show ?thesis by (simp add: Wait_loop.simps[of m events n i acc])
  next
    case True
    with "1.prems" have inb: "nat i < length events" by linarith
    have step: "Wait_loop m events n i acc =
        Wait_loop m events n (i + 1) (acc @ [index m (sint (Fd (events ! nat i)))])"
      using True inb "1.prems" by (simp add: Wait_loop.simps[of m events n i acc])
    have ih: "Wait_loop m events n (i + 1) (acc @ [index m (sint (Fd (events ! nat i)))]) =
        Inr ((acc @ [index m (sint (Fd (events ! nat i)))]) @
          map (\<lambda>ev. index m (sint (Fd ev))) (take (nat (n - (i + 1))) (drop (nat (i + 1)) events)))"
      using "1.IH" True inb "1.prems" by simp
    have sp: "take (nat (n - i)) (drop (nat i) events) =
        events ! nat i # take (nat (n - (i + 1))) (drop (nat (i + 1)) events)"
    proof -
      have a: "nat (n - i) = Suc (nat (n - (i + 1)))" using True by linarith
      have b: "nat (i + 1) = Suc (nat i)" using "1.prems" by linarith
      have c: "drop (nat i) events = events ! nat i # drop (Suc (nat i)) events"
        using inb by (simp add: Cons_nth_drop_Suc)
      show ?thesis by (simp only: a b c take_Suc_Cons)
    qed
    show ?thesis by (simp only: step ih sp) simp
  qed
qed

lemma RUnlock_RLock: "RLock l = Some held \<Longrightarrow> RUnlock held = Inr l"
  by (auto simp: RLock_def RUnlock_def split: if_splits)

lemma RLock_None_iff: "RLock l = None \<longleftrightarrow> writer l"
  by (simp add: RLock_def)

lemma world_lock_same: "w\<lparr>ep := (ep w)\<lparr>lock := lock (ep w)\<rparr>\<rparr> = w"
  by simp

lemma Wait_retry_Fails:
  assumes "env i = Fails er" "events \<noteq> []"
  shows "Wait_retry events w env i =
           (if er = EINTR then Wait_retry events w env (Suc i) else Some (Inr ([], Some er), w))"
  using assms by (subst Wait_retry.simps) (simp add: EpollWait_def)

lemma Wait_retry_Quiet:
  assumes "env i = Quiet" "events \<noteq> []"
  shows "Wait_retry events w env i =
           (if writer (lock (ep w)) then None else Some (Inr ([], None), w))"
proof (cases "RLock (lock (ep w))")
  case None
  then have "writer (lock (ep w))" by (simp add: RLock_None_iff)
  then show ?thesis using assms None
    by (subst Wait_retry.simps) (simp add: EpollWait_def)
next
  case (Some held)
  then have nw: "\<not> writer (lock (ep w))" by (auto simp: RLock_def split: if_splits)
  show ?thesis using assms Some nw RUnlock_RLock[OF Some]
    by (subst Wait_retry.simps) (simp add: EpollWait_def Wait_loop.simps[of _ _ 0 0])
qed

lemma Wait_retry_Ready:
  assumes "env i = Ready ev evs" "events \<noteq> []"
  shows "Wait_retry events w env i =
           (if writer (lock (ep w)) then None
            else Some (Inr (map (\<lambda>e. index (connections (ep w)) (sint (Fd e)))
                              (take (length events) (ev # evs)), None), w))"
proof (cases "RLock (lock (ep w))")
  case None
  then have "writer (lock (ep w))" by (simp add: RLock_None_iff)
  then show ?thesis using assms None
    by (subst Wait_retry.simps) (simp add: EpollWait_def Let_def)
next
  case (Some held)
  then have nw: "\<not> writer (lock (ep w))" by (auto simp: RLock_def split: if_splits)
  define n where "n = min (length (ev # evs)) (length events)"
  define events' where "events' = take n (ev # evs) @ drop n events"
  have ew: "EpollWait (env i) (fd (ep w)) events 100 = Some (int n, events', None)"
    using assms by (simp add: EpollWait_def n_def events'_def Let_def)
  have len: "length events' = length events"
    by (simp add: events'_def n_def)
  have "Wait_loop (connections (ep w)) events' (int n) 0 [] =
          Inr ([] @ map (\<lambda>e. index (connections (ep w)) (sint (Fd e)))
                     (take (nat (int n - 0)) (drop (nat 0) events')))"
    by (rule Wait_loop_eq) (simp_all add: len n_def)
  moreover have "take n events' = take (length events) (ev # evs)"
    by (simp add: events'_def n_def min_def)
  ultimately have loop: "Wait_loop (connections (ep w)) events' (int n) 0 [] =
      Inr (map (\<lambda>e. index (connections (ep w)) (sint (Fd e))) (take (length events) (ev # evs)))"
    by simp
  show ?thesis using Some nw RUnlock_RLock[OF Some]
    by (subst Wait_retry.simps) (simp add: ew loop)
qed

lemma Wait_retry_skip:
  "events \<noteq> [] \<Longrightarrow> (\<forall>j<k. env (i + j) = Fails EINTR) \<Longrightarrow>
   Wait_retry events w env i = Wait_retry events w env (i + k)"
proof (induction k arbitrary: i)
  case 0
  then show ?case by simp
next
  case (Suc k)
  have "env (i + 0) = Fails EINTR" using Suc.prems(2) by blast
  then have first: "env i = Fails EINTR" by simp
  have rest: "\<forall>j<k. env (Suc i + j) = Fails EINTR"
  proof (intro allI impI)
    fix j assume "j < k"
    then have "Suc j < Suc k" by simp
    with Suc.prems(2) have "env (i + Suc j) = Fails EINTR" by blast
    then show "env (Suc i + j) = Fails EINTR" by simp
  qed
  have "Wait_retry events w env i = Wait_retry events w env (Suc i)"
    using Wait_retry_Fails[of env i EINTR events w] first Suc.prems(1) by simp
  also have "\<dots> = Wait_retry events w env (Suc i + k)"
    by (rule Suc.IH[OF Suc.prems(1) rest])
  finally show ?case by simp
qed

lemmas Wait_retry_induct = Wait_retry.raw_induct[rotated 1, consumes 1, case_names retry]

lemma Wait_retry_returns_aux:
  assumes "Wait_retry events w env i = Some y"
  shows "events \<noteq> [] \<longrightarrow> (\<exists>k. (\<forall>j<k. env (i + j) = Fails EINTR) \<and> env (i + k) \<noteq> Fails EINTR)"
  using assms
proof (induct events w env i y rule: Wait_retry_induct)
  case (retry Wr events w env i y)
  note 1 = this
  show ?case
  proof (cases "env i = Fails EINTR")
    case False
    then have "(\<forall>j<0. env (i + j) = Fails EINTR) \<and> env (i + 0) \<noteq> Fails EINTR" by simp
    then show ?thesis by blast
  next
    case True
    show ?thesis
    proof
      assume ne: "events \<noteq> []"
      have "EpollWait (env i) (fd (ep w)) events 100 = Some (- 1, events, Some EINTR)"
        using True ne by (simp add: EpollWait_def)
      with "1"(2) have "Wr events w env (Suc i) = Some y"
        by (simp only: option.case prod.case simp_thms if_True)
      then have "events \<noteq> [] \<longrightarrow>
          (\<exists>k. (\<forall>j<k. env (Suc i + j) = Fails EINTR) \<and> env (Suc i + k) \<noteq> Fails EINTR)"
        by (rule "1"(1))
      from this ne
      have "\<exists>k. (\<forall>j<k. env (Suc i + j) = Fails EINTR) \<and> env (Suc i + k) \<noteq> Fails EINTR"
        by (rule mp)
      then obtain k where
        k: "\<forall>j<k. env (Suc i + j) = Fails EINTR" "env (Suc i + k) \<noteq> Fails EINTR"
        by (elim exE conjE) (rule that)
      have "\<forall>j<Suc k. env (i + j) = Fails EINTR"
      proof (intro allI impI)
        fix j assume jk: "j < Suc k"
        show "env (i + j) = Fails EINTR"
        proof (cases j)
          case 0 then show ?thesis using True by simp
        next
          case (Suc j')
          then have "j' < k" using jk by simp
          then have "env (Suc i + j') = Fails EINTR" using k(1) by blast
          then show ?thesis using Suc by simp
        qed
      qed
      moreover have "env (i + Suc k) \<noteq> Fails EINTR" using k(2) by simp
      ultimately show "\<exists>k. (\<forall>j<k. env (i + j) = Fails EINTR) \<and> env (i + k) \<noteq> Fails EINTR"
        by blast
    qed
  qed
qed

lemma Wait_retry_returns:
  assumes "Wait_retry events w env i = Some y" "events \<noteq> []"
  obtains k where "\<forall>j<k. env (i + j) = Fails EINTR" "env (i + k) \<noteq> Fails EINTR"
    "Wait_retry events w env (i + k) = Some y"
proof -
  from Wait_retry_returns_aux[OF assms(1)] assms(2) obtain k where
    k: "\<forall>j<k. env (i + j) = Fails EINTR" "env (i + k) \<noteq> Fails EINTR" by blast
  have "Wait_retry events w env i = Wait_retry events w env (i + k)"
    by (rule Wait_retry_skip[OF assms(2) k(1)])
  with assms(1) have "Wait_retry events w env (i + k) = Some y" by simp
  with k show thesis by (rule that)
qed

lemma make_events_nonempty: "make_events 100 \<noteq> []"
  by (simp add: make_events_def)

lemma length_make_events: "length (make_events k) = k"
  by (simp add: make_events_def)

lemma Wait_Ready:
  assumes "\<forall>j<k. env (i + j) = Fails EINTR" "env (i + k) = Ready ev evs"
  shows "Wait w env i =
           (if writer (lock (ep w)) then None
            else Some (Inr (map (\<lambda>e. index (connections (ep w)) (sint (Fd e)))
                              (take 100 (ev # evs)), None), w))"
proof -
  have "Wait w env i = Wait_retry (make_events 100) w env (i + k)"
    unfolding Wait_def by (rule Wait_retry_skip[where env = env and i = i and k = k, OF make_events_nonempty assms(1)])
  also have "\<dots> = (if writer (lock (ep w)) then None
            else Some (Inr (map (\<lambda>e. index (connections (ep w)) (sint (Fd e)))
                              (take (length (make_events 100)) (ev # evs)), None), w))"
    by (rule Wait_retry_Ready[where env = env and i = "i + k", OF assms(2) make_events_nonempty])
  finally show ?thesis by (simp only: length_make_events)
qed

lemma Wait_Quiet:
  assumes "\<forall>j<k. env (i + j) = Fails EINTR" "env (i + k) = Quiet"
  shows "Wait w env i = (if writer (lock (ep w)) then None else Some (Inr ([], None), w))"
proof -
  have "Wait w env i = Wait_retry (make_events 100) w env (i + k)"
    unfolding Wait_def by (rule Wait_retry_skip[where env = env and i = i and k = k, OF make_events_nonempty assms(1)])
  also have "\<dots> = (if writer (lock (ep w)) then None else Some (Inr ([], None), w))"
    by (rule Wait_retry_Quiet[where env = env and i = "i + k", OF assms(2) make_events_nonempty])
  finally show ?thesis .
qed

lemma Wait_Fails:
  assumes "\<forall>j<k. env (i + j) = Fails EINTR" "env (i + k) = Fails er" "er \<noteq> EINTR"
  shows "Wait w env i = Some (Inr ([], Some er), w)"
proof -
  have "Wait w env i = Wait_retry (make_events 100) w env (i + k)"
    unfolding Wait_def by (rule Wait_retry_skip[where env = env and i = i and k = k, OF make_events_nonempty assms(1)])
  also have "\<dots> = Some (Inr ([], Some er), w)"
    using Wait_retry_Fails[of env "i + k" er "make_events 100" w] assms(2,3) make_events_nonempty
    by simp
  finally show ?thesis .
qed

lemma Wait_returns:
  assumes "Wait w env i = Some y"
  obtains k where "\<forall>j<k. env (i + j) = Fails EINTR" "env (i + k) \<noteq> Fails EINTR"
  using assms unfolding Wait_def
  by (rule Wait_retry_returns[where env = env and i = i, OF _ make_events_nonempty])

lemma started_lock: "writer (lock (ep started)) = False"
  by (simp add: started_def)

lemma serving_lock: "writer (lock (ep serving)) = False"
  by (simp add: serving_def)

lemma Wait_started_never_ready: "Wait started never_ready 0 = Some (Inr ([], None), started)"
proof -
  have "\<forall>j<0. never_ready (0 + j) = Fails EINTR" by simp
  moreover have "never_ready (0 + 0) = Quiet" by (simp add: never_ready_def)
  ultimately have "Wait started never_ready 0 =
      (if writer (lock (ep started)) then None else Some (Inr ([], None), started))"
    by (rule Wait_Quiet[where env = never_ready and i = 0 and k = 0])
  then show ?thesis by (simp add: started_lock)
qed

lemma Wait_result:
  assumes "Wait w env i = Some (r, w')"
  shows "w' = w \<and> (\<exists>k. (\<forall>j<k. env (i + j) = Fails EINTR) \<and>
           (case env (i + k) of
              Ready ev evs \<Rightarrow>
                r = Inr (map (\<lambda>e. index (connections (ep w)) (sint (Fd e))) (take 100 (ev # evs)), None)
            | Quiet \<Rightarrow> r = Inr ([], None)
            | Fails er \<Rightarrow> er \<noteq> EINTR \<and> r = Inr ([], Some er)))"
proof -
  from assms obtain k where
    k: "\<forall>j<k. env (i + j) = Fails EINTR" "env (i + k) \<noteq> Fails EINTR"
    by (rule Wait_returns)
  have "w' = w \<and> (case env (i + k) of
              Ready ev evs \<Rightarrow>
                r = Inr (map (\<lambda>e. index (connections (ep w)) (sint (Fd e))) (take 100 (ev # evs)), None)
            | Quiet \<Rightarrow> r = Inr ([], None)
            | Fails er \<Rightarrow> er \<noteq> EINTR \<and> r = Inr ([], Some er))"
  proof (cases "env (i + k)")
    case (Ready ev evs)
    from Wait_Ready[where env = env and i = i and k = k and w = w, OF k(1) Ready] assms
    show ?thesis using Ready by (simp split: if_splits)
  next
    case Quiet
    from Wait_Quiet[where env = env and i = i and k = k and w = w, OF k(1) Quiet] assms show ?thesis
      using Quiet by (simp split: if_splits)
  next
    case (Fails er)
    with k(2) have ne: "er \<noteq> EINTR" by simp
    from Wait_Fails[where env = env and i = i and k = k and w = w, OF k(1) Fails ne] assms show ?thesis
      using Fails ne by simp
  qed
  with k(1) show ?thesis by blast
qed

lemma Wait_serving_interrupted_twice:
  "Wait serving interrupted_twice 0 = Some (Inr ([TCPConn 7, NilConn], None), serving)"
proof -
  have "\<forall>j<2. interrupted_twice (0 + j) = Fails EINTR"
    by (simp add: interrupted_twice_def)
  moreover have "interrupted_twice (0 + 2) = Ready (interest_event 7) [interest_event 9]"
    by (simp add: interrupted_twice_def)
  ultimately have "Wait serving interrupted_twice 0 =
      (if writer (lock (ep serving)) then None
       else Some (Inr (map (\<lambda>e. index (connections (ep serving)) (sint (Fd e)))
                         (take 100 [interest_event 7, interest_event 9]), None), serving))"
    by (rule Wait_Ready[where env = interrupted_twice and i = 0 and k = 2])
  then show ?thesis
    by (simp add: serving_def index_def interest_event_def)
qed

lemma Wait_started_interrupted_then_broken:
  "Wait started interrupted_then_broken 0 = Some (Inr ([], Some EBADF), started)"
proof -
  have "\<forall>j<1. interrupted_then_broken (0 + j) = Fails EINTR"
    by (simp add: interrupted_then_broken_def)
  moreover have "interrupted_then_broken (0 + 1) = Fails EBADF"
    by (simp add: interrupted_then_broken_def)
  moreover have "EBADF \<noteq> EINTR" by simp
  ultimately show ?thesis
    by (rule Wait_Fails[where env = interrupted_then_broken and i = 0 and k = 1])
qed

text \<open>
  C1, as stated, fails. \<^verbatim>\<open>Wait\<close> passes 100 to \<^verbatim>\<open>unix.EpollWait\<close> as the timeout in
  milliseconds (line 78), so a wait that meets nothing ready comes back with no event: on the
  multiplexer just made, with nothing ever ready, \<^verbatim>\<open>Wait\<close> returns the empty list and
  no error.
\<close>

theorem Wait_empty_without_error_counterexample:
  "Wait started never_ready 0 = Some (Inr ([], None), started)"
  by (rule Wait_started_never_ready)

text \<open>
  C2: however many calls of the wait system call fail with \<open>EINTR\<close> in a row, \<^verbatim>\<open>Wait\<close>
  goes on as if it had started after them: it returns what the later calls give. If every
  call is interrupted, \<^verbatim>\<open>Wait\<close> never returns. And an error that \<^verbatim>\<open>Wait\<close> returns is
  never \<open>EINTR\<close>.
\<close>

theorem Wait_absorbs_EINTR:
  "((\<forall>j<k. env (i + j) = Fails EINTR) \<longrightarrow> Wait w env i = Wait w env (i + k)) \<and>
   ((\<forall>j. env (i + j) = Fails EINTR) \<longrightarrow> Wait w env i = None) \<and>
   (Wait w env i = Some (Inr (conns, Some er), w') \<longrightarrow> er \<noteq> EINTR)"
proof (intro conjI impI)
  assume "\<forall>j<k. env (i + j) = Fails EINTR"
  then show "Wait w env i = Wait w env (i + k)"
    unfolding Wait_def
    by (rule Wait_retry_skip[where env = env and i = i and k = k, OF make_events_nonempty])
next
  assume always: "\<forall>j. env (i + j) = Fails EINTR"
  show "Wait w env i = None"
  proof (cases "Wait w env i")
    case None
    then show ?thesis .
  next
    case (Some y)
    then obtain k where "env (i + k) \<noteq> Fails EINTR" by (rule Wait_returns)
    with always show ?thesis by simp
  qed
next
  assume "Wait w env i = Some (Inr (conns, Some er), w')"
  from Wait_result[OF this] obtain k where
    out: "case env (i + k) of
              Ready ev evs \<Rightarrow>
                (Inr (conns, Some er) :: panic + conn list \<times> errno option) = Inr (map (\<lambda>e. index (connections (ep w)) (sint (Fd e))) (take 100 (ev # evs)), None)
            | Quiet \<Rightarrow> (Inr (conns, Some er) :: panic + conn list \<times> errno option) = Inr ([], None)
            | Fails er' \<Rightarrow> er' \<noteq> EINTR \<and> (Inr (conns, Some er) :: panic + conn list \<times> errno option) = Inr ([], Some er')"
    by (elim conjE exE) (rule that)
  then show "er \<noteq> EINTR"
    by (cases "env (i + k)") auto
qed

text \<open>
  Three runs: interrupted twice and then ready; interrupted for ever; interrupted once and
  then \<open>EBADF\<close>.
\<close>

theorem Wait_absorbs_EINTR_witness:
  "interrupted_twice 0 = Fails EINTR \<and> interrupted_twice 1 = Fails EINTR \<and>
   Wait serving interrupted_twice 0 = Wait serving interrupted_twice (0 + 2) \<and>
   Wait serving interrupted_twice 0 = Some (Inr ([TCPConn 7, NilConn], None), serving) \<and>
   Wait serving always_interrupted 0 = None \<and>
   Wait started interrupted_then_broken 0 = Some (Inr ([], Some EBADF), started) \<and>
   EBADF \<noteq> EINTR"
proof -
  have h: "\<forall>j<2. interrupted_twice (0 + j) = Fails EINTR"
    by (simp add: interrupted_twice_def)
  have a: "\<forall>j. always_interrupted (0 + j) = Fails EINTR"
    by (simp add: always_interrupted_def)
  note skip = Wait_absorbs_EINTR[where env = interrupted_twice and i = 0 and k = 2 and w = serving,
      THEN conjunct1, THEN mp, OF h]
  note never = Wait_absorbs_EINTR[where env = always_interrupted and i = 0 and w = serving,
      THEN conjunct2, THEN conjunct1, THEN mp, OF a]
  note other = Wait_absorbs_EINTR[where env = interrupted_then_broken and i = 0 and w = started
      and conns = "[]" and er = EBADF and w' = started,
      THEN conjunct2, THEN conjunct2, THEN mp, OF Wait_started_interrupted_then_broken]
  have "interrupted_twice 0 = Fails EINTR" "interrupted_twice 1 = Fails EINTR"
    by (simp_all add: interrupted_twice_def)
  with skip never other show ?thesis
    using Wait_serving_interrupted_twice Wait_started_interrupted_then_broken by (intro conjI)
qed

text \<open>
  C7: when the wait system call succeeds with descriptors ready (after any number of
  interrupted calls), \<^verbatim>\<open>Wait\<close> needs the lock in shared mode: it does not return while a
  writer holds it. Otherwise it returns one entry for each reported event, in the reported
  order (the first 100 of the ready ones), each entry being what the table holds under the
  event's descriptor, and \<^verbatim>\<open>nil\<close> where the table holds nothing; the lock is back as it
  was.
\<close>

theorem Wait_translates_in_order:
  assumes "\<forall>j<k. env (i + j) = Fails EINTR" and "env (i + k) = Ready ev evs"
  shows "Wait w env i =
           (if writer (lock (ep w)) then None
            else Some (Inr (map (\<lambda>e. case fmlookup (connections (ep w)) (sint (Fd e)) of
                                        None \<Rightarrow> NilConn | Some c \<Rightarrow> c)
                              (take 100 (ev # evs)), None), w))"
  using Wait_Ready[where env = env and i = i and k = k and w = w, OF assms]
  by (simp add: index_def)

text \<open>A run of it: 7 is in the table, 9 is not.\<close>

theorem Wait_translates_in_order_witness:
  "interrupted_twice 0 = Fails EINTR \<and> interrupted_twice 1 = Fails EINTR \<and>
   interrupted_twice (0 + 2) = Ready (interest_event 7) [interest_event 9] \<and>
   fmlookup (connections (ep serving)) 7 = Some (TCPConn 7) \<and>
   fmlookup (connections (ep serving)) 9 = None \<and>
   Wait serving interrupted_twice 0 = Some (Inr ([TCPConn 7, NilConn], None), serving)"
proof -
  have h1: "\<forall>j<2. interrupted_twice (0 + j) = Fails EINTR"
    by (simp add: interrupted_twice_def)
  have h2: "interrupted_twice (0 + 2) = Ready (interest_event 7) [interest_event 9]"
    by (simp add: interrupted_twice_def)
  have h0: "interrupted_twice 0 = Fails EINTR" "interrupted_twice 1 = Fails EINTR"
    by (simp_all add: interrupted_twice_def)
  show ?thesis
    using h0 h2 Wait_translates_in_order[where env = interrupted_twice and i = 0 and k = 2
        and w = serving, OF h1 h2]
    by (simp add: serving_def interest_event_def)
qed

text \<open>
  C8: a list that \<^verbatim>\<open>Wait\<close> returns has at most 100 entries; and when more than 100
  descriptors are ready, it returns exactly 100 entries, those of the first 100 in the
  kernel's order.
\<close>

theorem Wait_at_most_100:
  "(Wait w env i = Some (Inr (conns, err), w') \<longrightarrow> length conns \<le> 100) \<and>
   ((\<forall>j<k. env (i + j) = Fails EINTR) \<and> env (i + k) = Ready ev evs \<and>
      100 < length (ev # evs) \<and> \<not> writer (lock (ep w)) \<longrightarrow>
    (\<exists>first. length first = 100 \<and>
        first = map (\<lambda>e. index (connections (ep w)) (sint (Fd e))) (take 100 (ev # evs)) \<and>
        Wait w env i = Some (Inr (first, None), w)))"
proof (intro conjI impI)
  assume "Wait w env i = Some (Inr (conns, err), w')"
  from Wait_result[OF this] obtain k where
    out: "case env (i + k) of
              Ready ev evs \<Rightarrow>
                (Inr (conns, err) :: panic + conn list \<times> errno option) = Inr (map (\<lambda>e. index (connections (ep w)) (sint (Fd e))) (take 100 (ev # evs)), None)
            | Quiet \<Rightarrow> (Inr (conns, err) :: panic + conn list \<times> errno option) = Inr ([], None)
            | Fails er' \<Rightarrow> er' \<noteq> EINTR \<and> (Inr (conns, err) :: panic + conn list \<times> errno option) = Inr ([], Some er')"
    by (elim conjE exE) (rule that)
  then show "length conns \<le> 100"
    by (cases "env (i + k)") auto
next
  assume a: "(\<forall>j<k. env (i + j) = Fails EINTR) \<and> env (i + k) = Ready ev evs \<and>
      100 < length (ev # evs) \<and> \<not> writer (lock (ep w))"
  then have "Wait w env i = Some (Inr (map (\<lambda>e. index (connections (ep w)) (sint (Fd e)))
                              (take 100 (ev # evs)), None), w)"
    using Wait_Ready[where env = env and i = i and k = k and w = w and ev = ev and evs = evs]
    by simp
  moreover have "length (map (\<lambda>e. index (connections (ep w)) (sint (Fd e))) (take 100 (ev # evs))) = 100"
    using a by simp
  ultimately show "\<exists>first. length first = 100 \<and>
        first = map (\<lambda>e. index (connections (ep w)) (sint (Fd e))) (take 100 (ev # evs)) \<and>
        Wait w env i = Some (Inr (first, None), w)"
    by blast
qed

text \<open>A run of it: 101 descriptors are ready.\<close>

theorem Wait_at_most_100_witness:
  "100 < length (interest_event 7 # replicate 100 (interest_event 9)) \<and>
   Wait serving crowded 0 = Some (Inr (TCPConn 7 # replicate 99 NilConn, None), serving) \<and>
   length (TCPConn 7 # replicate 99 NilConn) \<le> 100"
proof -
  have h: "(\<forall>j<0. crowded (0 + j) = Fails EINTR) \<and>
      crowded (0 + 0) = Ready (interest_event 7) (replicate 100 (interest_event 9)) \<and>
      100 < length (interest_event 7 # replicate 100 (interest_event 9)) \<and>
      \<not> writer (lock (ep serving))"
    by (simp add: crowded_def serving_def)
  have m: "map (\<lambda>e. index (connections (ep serving)) (sint (Fd e)))
             (take 100 (interest_event 7 # replicate 100 (interest_event 9))) =
           TCPConn 7 # replicate 99 NilConn"
    by (simp add: serving_def index_def interest_event_def)
  from Wait_at_most_100[where env = crowded and i = 0 and k = 0 and w = serving
      and ev = "interest_event 7" and evs = "replicate 100 (interest_event 9)"] h
  have run: "Wait serving crowded 0 = Some (Inr (TCPConn 7 # replicate 99 NilConn, None), serving)"
    unfolding m by blast
  from Wait_at_most_100[where env = crowded and i = 0 and w = serving
      and conns = "TCPConn 7 # replicate 99 NilConn" and err = None and w' = serving] run
  have "length (TCPConn 7 # replicate 99 NilConn) \<le> 100" by blast
  with h run show ?thesis by blast
qed

lemma EpollCtl_failure: "EpollCtl fault k epfd op d ev = (Some er, k') \<Longrightarrow> k' = k"
  by (auto simp: EpollCtl_def split: option.splits ctl_op.splits)

lemma EpollCtl_ADD_ok:
  "EpollCtl fault k epfd EPOLL_CTL_ADD d (Some ev) = (None, k') \<longleftrightarrow>
     fault = None \<and> fmlookup k d = None \<and> k' = fmupd d ev k"
  by (auto simp: EpollCtl_def split: option.splits)

lemma EpollCtl_DEL_ok:
  "EpollCtl fault k epfd EPOLL_CTL_DEL d None = (None, k') \<longleftrightarrow>
     fault = None \<and> fmlookup k d \<noteq> None \<and> k' = fmdrop d k"
  by (auto simp: EpollCtl_def split: option.splits)

lemma EpollCtl_DEL_absent:
  "fmlookup k d = None \<Longrightarrow>
   EpollCtl fault k epfd EPOLL_CTL_DEL d ev = (Some (case fault of None \<Rightarrow> ENOENT | Some er \<Rightarrow> er), k)"
  by (simp add: EpollCtl_def split: option.splits)

lemma Add_panics: "socketFD c = Inl p \<Longrightarrow> Add fault c w = Some (Inl p, w)"
  by (simp add: Add_def)

lemma Remove_panics: "socketFD c = Inl p \<Longrightarrow> Remove fault c w = Some (Inl p, w)"
  by (simp add: Remove_def)

lemma Add_ctl_failure:
  assumes "socketFD c = Inr d"
    and "fst (EpollCtl fault (interest w) (fd (ep w)) EPOLL_CTL_ADD d (Some (interest_event d))) = Some er"
  shows "Add fault c w = Some (Inr (Some er), w)"
proof -
  obtain k' where e: "EpollCtl fault (interest w) (fd (ep w)) EPOLL_CTL_ADD d (Some (interest_event d)) = (Some er, k')"
    using assms(2) by (cases "EpollCtl fault (interest w) (fd (ep w)) EPOLL_CTL_ADD d (Some (interest_event d))") simp
  then have "k' = interest w" by (rule EpollCtl_failure)
  with e assms(1) show ?thesis by (simp add: Add_def)
qed

lemma Remove_ctl_failure:
  assumes "socketFD c = Inr d"
    and "fst (EpollCtl fault (interest w) (fd (ep w)) EPOLL_CTL_DEL d None) = Some er"
  shows "Remove fault c w = Some (Inr (Some er), w)"
proof -
  obtain k' where e: "EpollCtl fault (interest w) (fd (ep w)) EPOLL_CTL_DEL d None = (Some er, k')"
    using assms(2) by (cases "EpollCtl fault (interest w) (fd (ep w)) EPOLL_CTL_DEL d None") simp
  then have "k' = interest w" by (rule EpollCtl_failure)
  with e assms(1) show ?thesis by (simp add: Remove_def)
qed

lemma Unlock_Lock: "Lock l = Some held \<Longrightarrow> Unlock held = Inr l"
  by (auto simp: Lock_def Unlock_def split: if_splits)

lemma Add_ctl_ok:
  assumes "socketFD c = Inr d"
    and "EpollCtl fault (interest w) (fd (ep w)) EPOLL_CTL_ADD d (Some (interest_event d)) = (None, k)"
  shows "Add fault c w =
           (if \<not> writer (lock (ep w)) \<and> readers (lock (ep w)) = 0
            then Some (Inr None, \<lparr>ep = (ep w)\<lparr>connections := fmupd d c (connections (ep w))\<rparr>,
                                 interest = fmupd d (interest_event d) (interest w),
                                 printed = log_total (fmupd d c (connections (ep w))) (printed w)\<rparr>)
            else None)"
proof (cases "Lock (lock (ep w))")
  case None
  then show ?thesis using assms by (simp add: Add_def Lock_def split: if_splits)
next
  case (Some held)
  from assms(2) have k: "k = fmupd d (interest_event d) (interest w)"
    by (simp add: EpollCtl_ADD_ok)
  from Some have free: "\<not> writer (lock (ep w)) \<and> readers (lock (ep w)) = 0"
    by (simp add: Lock_def split: if_splits)
  show ?thesis using assms Some Unlock_Lock[OF Some] free k
    by (simp add: Add_def Let_def)
qed

lemma Remove_ctl_ok:
  assumes "socketFD c = Inr d"
    and "EpollCtl fault (interest w) (fd (ep w)) EPOLL_CTL_DEL d None = (None, k)"
  shows "Remove fault c w =
           (if \<not> writer (lock (ep w)) \<and> readers (lock (ep w)) = 0
            then Some (Inr None, \<lparr>ep = (ep w)\<lparr>connections := fmdrop d (connections (ep w))\<rparr>,
                                 interest = fmdrop d (interest w),
                                 printed = log_total (fmdrop d (connections (ep w))) (printed w)\<rparr>)
            else None)"
proof (cases "Lock (lock (ep w))")
  case None
  then show ?thesis using assms by (simp add: Remove_def Lock_def split: if_splits)
next
  case (Some held)
  from assms(2) have k: "k = fmdrop d (interest w)"
    by (simp add: EpollCtl_DEL_ok)
  from Some have free: "\<not> writer (lock (ep w)) \<and> readers (lock (ep w)) = 0"
    by (simp add: Lock_def split: if_splits)
  show ?thesis using assms Some Unlock_Lock[OF Some] free k
    by (simp add: Remove_def Let_def)
qed

lemma Add_cases:
  assumes "Add fault c w = Some (r, w')"
  obtains (panic) p where "socketFD c = Inl p" "r = Inl p" "w' = w"
  | (failed) d er where "socketFD c = Inr d" "r = Inr (Some er)" "w' = w"
  | (ok) d where "socketFD c = Inr d" "r = Inr None" "fmlookup (interest w) d = None"
      "w' = \<lparr>ep = (ep w)\<lparr>connections := fmupd d c (connections (ep w))\<rparr>,
             interest = fmupd d (interest_event d) (interest w),
             printed = log_total (fmupd d c (connections (ep w))) (printed w)\<rparr>"
proof (cases "socketFD c")
  case (Inl p)
  with assms Add_panics[OF Inl, of fault w] show ?thesis by (auto intro: panic)
next
  case (Inr d)
  obtain e k where ek: "EpollCtl fault (interest w) (fd (ep w)) EPOLL_CTL_ADD d (Some (interest_event d)) = (e, k)"
    by (cases "EpollCtl fault (interest w) (fd (ep w)) EPOLL_CTL_ADD d (Some (interest_event d))")
  show ?thesis
  proof (cases e)
    case (Some er)
    with ek have "fst (EpollCtl fault (interest w) (fd (ep w)) EPOLL_CTL_ADD d (Some (interest_event d))) = Some er"
      by simp
    from Add_ctl_failure[OF Inr this] assms show ?thesis using Inr by (auto intro: failed)
  next
    case None
    with ek have ok': "EpollCtl fault (interest w) (fd (ep w)) EPOLL_CTL_ADD d (Some (interest_event d)) = (None, k)"
      by simp
    then have "fmlookup (interest w) d = None" by (simp add: EpollCtl_ADD_ok)
    with Add_ctl_ok[OF Inr ok'] assms Inr show ?thesis
      by (auto intro: ok split: if_splits)
  qed
qed

lemma Remove_cases:
  assumes "Remove fault c w = Some (r, w')"
  obtains (panic) p where "socketFD c = Inl p" "r = Inl p" "w' = w"
  | (failed) d er where "socketFD c = Inr d" "r = Inr (Some er)" "w' = w"
  | (ok) d where "socketFD c = Inr d" "r = Inr None" "fmlookup (interest w) d \<noteq> None"
      "w' = \<lparr>ep = (ep w)\<lparr>connections := fmdrop d (connections (ep w))\<rparr>,
             interest = fmdrop d (interest w),
             printed = log_total (fmdrop d (connections (ep w))) (printed w)\<rparr>"
proof (cases "socketFD c")
  case (Inl p)
  with assms Remove_panics[OF Inl, of fault w] show ?thesis by (auto intro: panic)
next
  case (Inr d)
  obtain e k where ek: "EpollCtl fault (interest w) (fd (ep w)) EPOLL_CTL_DEL d None = (e, k)"
    by (cases "EpollCtl fault (interest w) (fd (ep w)) EPOLL_CTL_DEL d None")
  show ?thesis
  proof (cases e)
    case (Some er)
    with ek have "fst (EpollCtl fault (interest w) (fd (ep w)) EPOLL_CTL_DEL d None) = Some er"
      by simp
    from Remove_ctl_failure[OF Inr this] assms show ?thesis using Inr by (auto intro: failed)
  next
    case None
    with ek have ok': "EpollCtl fault (interest w) (fd (ep w)) EPOLL_CTL_DEL d None = (None, k)"
      by simp
    then have "fmlookup (interest w) d \<noteq> None" by (simp add: EpollCtl_DEL_ok)
    with Remove_ctl_ok[OF Inr ok'] assms Inr show ?thesis
      by (auto intro: ok split: if_splits)
  qed
qed

lemma Add_keeps_tracking:
  assumes "fmdom' (connections (ep w)) = fmdom' (interest w)" "Add fault c w = Some (r, w')"
  shows "fmdom' (connections (ep w')) = fmdom' (interest w')"
  using assms(2)
proof (cases rule: Add_cases)
  case (ok d)
  then show ?thesis using assms(1) by simp
qed (use assms(1) in simp_all)

lemma Remove_keeps_tracking:
  assumes "fmdom' (connections (ep w)) = fmdom' (interest w)" "Remove fault c w = Some (r, w')"
  shows "fmdom' (connections (ep w')) = fmdom' (interest w')"
  using assms(2)
proof (cases rule: Remove_cases)
  case (ok d)
  then show ?thesis using assms(1) by simp
qed (use assms(1) in simp_all)

lemma reachable_tracking:
  "reachable w \<Longrightarrow> fmdom' (connections (ep w)) = fmdom' (interest w)"
proof (induction rule: reachable.induct)
  case (created made w)
  then show ?case by (cases made) (auto simp: MkEpoll_def)
next
  case (added w fault c r w')
  show ?case by (rule Add_keeps_tracking[OF added.IH added.hyps(2)])
next
  case (removed w fault c r w')
  show ?case by (rule Remove_keeps_tracking[OF removed.IH removed.hyps(2)])
next
  case (waited w env i res w')
  from Wait_result[OF waited.hyps(2)] have "w' = w" by blast
  with waited.IH show ?case by simp
qed

lemma socketFD_TCPConn: "socketFD (TCPConn d) = Inr d"
  by (simp add: socketFD_def TCPConn_def)

lemma socketFD_pipe_end: "socketFD pipe_end = Inl ReflectPanic"
  by (simp add: socketFD_def pipe_end_def)

lemma socketFD_other_handle: "socketFD other_handle = Inr 7"
  by (simp add: socketFD_def other_handle_def)

lemma other_handle_differs: "other_handle \<noteq> TCPConn 7"
  by (simp add: other_handle_def TCPConn_def)

lemma MkEpoll_started: "MkEpoll (Inr 3) = Inr started"
  by (simp add: MkEpoll_def started_def)

lemma Add_started_7: "Add None (TCPConn 7) started = Some (Inr None, serving)"
proof -
  have "EpollCtl None (interest started) (fd (ep started)) EPOLL_CTL_ADD 7 (Some (interest_event 7)) =
          (None, fmupd 7 (interest_event 7) fmempty)"
    by (simp add: EpollCtl_def started_def)
  from Add_ctl_ok[OF socketFD_TCPConn this] show ?thesis
    by (simp add: started_def serving_def log_total_def len_def)
qed

lemma Remove_serving_7: "Remove None (TCPConn 7) serving = Some (Inr None, emptied)"
proof -
  have "EpollCtl None (interest serving) (fd (ep serving)) EPOLL_CTL_DEL 7 None = (None, fmempty)"
    by (simp add: EpollCtl_def serving_def fmdrop_fmupd_same)
  from Remove_ctl_ok[OF socketFD_TCPConn this] show ?thesis
    by (simp add: emptied_def serving_def log_total_def len_def fmdrop_fmupd_same)
qed

lemma reachable_started: "reachable started"
  by (rule reachable.created[OF MkEpoll_started])

lemma reachable_serving: "reachable serving"
  by (rule reachable.added[OF reachable_started Add_started_7])

lemma reachable_emptied: "reachable emptied"
  by (rule reachable.removed[OF reachable_serving Remove_serving_7])

lemma reachable_unlocked:
  "reachable w \<Longrightarrow> \<not> writer (lock (ep w)) \<and> readers (lock (ep w)) = 0"
proof (induction rule: reachable.induct)
  case (created made w)
  then show ?case by (cases made) (auto simp: MkEpoll_def)
next
  case (added w fault c r w')
  from added.hyps(2) show ?case
  proof (cases rule: Add_cases)
    case (ok d)
    with added.IH show ?thesis by simp
  qed (use added.IH in simp_all)
next
  case (removed w fault c r w')
  from removed.hyps(2) show ?case
  proof (cases rule: Remove_cases)
    case (ok d)
    with removed.IH show ?thesis by simp
  qed (use removed.IH in simp_all)
next
  case (waited w env i res w')
  from Wait_result[OF waited.hyps(2)] have "w' = w" by (rule conjunct1)
  with waited.IH show ?case by simp
qed

lemma Wait_never:
  assumes "\<forall>j. env (i + j) = Fails EINTR"
  shows "Wait w env i = None"
proof (cases "Wait w env i")
  case None
  then show ?thesis .
next
  case (Some y)
  then obtain k where "env (i + k) \<noteq> Fails EINTR" by (rule Wait_returns)
  with assms show ?thesis by simp
qed

text \<open>
  C1, amended: in a reachable state \<^verbatim>\<open>Wait\<close> returns as soon as a wait system call is not
  interrupted, every call before it having failed with \<open>EINTR\<close>, and not before. If that
  call found descriptors ready, \<^verbatim>\<open>Wait\<close> returns their handles, at least one, and no
  error; if it failed, \<^verbatim>\<open>Wait\<close> returns that error; if its 100 ms ran out with nothing
  ready, \<^verbatim>\<open>Wait\<close> returns the empty list and no error. If every call is interrupted,
  \<^verbatim>\<open>Wait\<close> never returns. And whenever \<^verbatim>\<open>Wait\<close> returns, it is in one of these three
  ways, with the state as it was.
\<close>

theorem Wait_returns_when:
  assumes "reachable w"
  shows "((\<forall>j<k. env (i + j) = Fails EINTR) \<and> env (i + k) = Ready ev evs \<longrightarrow>
            Wait w env i =
              Some (Inr (index (connections (ep w)) (sint (Fd ev)) #
                         map (\<lambda>e. index (connections (ep w)) (sint (Fd e))) (take 99 evs), None), w)) \<and>
         ((\<forall>j<k. env (i + j) = Fails EINTR) \<and> env (i + k) = Quiet \<longrightarrow>
            Wait w env i = Some (Inr ([], None), w)) \<and>
         ((\<forall>j<k. env (i + j) = Fails EINTR) \<and> env (i + k) = Fails er \<and> er \<noteq> EINTR \<longrightarrow>
            Wait w env i = Some (Inr ([], Some er), w)) \<and>
         ((\<forall>j. env (i + j) = Fails EINTR) \<longrightarrow> Wait w env i = None) \<and>
         (Wait w env i = Some (r, w') \<longrightarrow>
            w' = w \<and>
            (\<exists>n. (\<forall>j<n. env (i + j) = Fails EINTR) \<and>
               (case env (i + n) of
                  Ready e es \<Rightarrow> \<exists>c cs. r = Inr (c # cs, None)
                | Quiet \<Rightarrow> r = Inr ([], None)
                | Fails er' \<Rightarrow> er' \<noteq> EINTR \<and> r = Inr ([], Some er'))))"
proof -
  from reachable_unlocked[OF assms] have free: "\<not> writer (lock (ep w))" by (rule conjunct1)
  have ready: "Wait w env i =
              Some (Inr (index (connections (ep w)) (sint (Fd ev)) #
                         map (\<lambda>e. index (connections (ep w)) (sint (Fd e))) (take 99 evs), None), w)"
    if "(\<forall>j<k. env (i + j) = Fails EINTR) \<and> env (i + k) = Ready ev evs"
  proof -
    from that have a: "\<forall>j<k. env (i + j) = Fails EINTR" and b: "env (i + k) = Ready ev evs"
      by (rule conjunct1, rule conjunct2)
    have "take 100 (ev # evs) = ev # take 99 evs" by simp
    with Wait_Ready[where env = env and i = i and k = k and w = w, OF a b] free
    show ?thesis by simp
  qed
  have quiet: "Wait w env i = Some (Inr ([], None), w)"
    if "(\<forall>j<k. env (i + j) = Fails EINTR) \<and> env (i + k) = Quiet"
  proof -
    from that have a: "\<forall>j<k. env (i + j) = Fails EINTR" and b: "env (i + k) = Quiet"
      by (rule conjunct1, rule conjunct2)
    from Wait_Quiet[where env = env and i = i and k = k and w = w, OF a b] free
    show ?thesis by simp
  qed
  have fails: "Wait w env i = Some (Inr ([], Some er), w)"
    if "(\<forall>j<k. env (i + j) = Fails EINTR) \<and> env (i + k) = Fails er \<and> er \<noteq> EINTR"
  proof -
    from that have a: "\<forall>j<k. env (i + j) = Fails EINTR" and b: "env (i + k) = Fails er"
      and c: "er \<noteq> EINTR" by simp_all
    show ?thesis
      by (rule Wait_Fails[where env = env and i = i and k = k and w = w, OF a b c])
  qed
  have never: "Wait w env i = None" if "\<forall>j. env (i + j) = Fails EINTR"
    using that by (rule Wait_never)
  have only: "w' = w \<and>
            (\<exists>n. (\<forall>j<n. env (i + j) = Fails EINTR) \<and>
               (case env (i + n) of
                  Ready e es \<Rightarrow> \<exists>c cs. r = Inr (c # cs, None)
                | Quiet \<Rightarrow> r = Inr ([], None)
                | Fails er' \<Rightarrow> er' \<noteq> EINTR \<and> r = Inr ([], Some er')))"
    if ret: "Wait w env i = Some (r, w')"
  proof -
    from Wait_result[OF ret] obtain n where
      same: "w' = w" and n: "\<forall>j<n. env (i + j) = Fails EINTR"
      and out: "case env (i + n) of
              Ready e es \<Rightarrow>
                r = Inr (map (\<lambda>e. index (connections (ep w)) (sint (Fd e))) (take 100 (e # es)), None)
            | Quiet \<Rightarrow> r = Inr ([], None)
            | Fails er' \<Rightarrow> er' \<noteq> EINTR \<and> r = Inr ([], Some er')"
      by (elim conjE exE) (rule that)
    from out have "case env (i + n) of
                  Ready e es \<Rightarrow> \<exists>c cs. r = Inr (c # cs, None)
                | Quiet \<Rightarrow> r = Inr ([], None)
                | Fails er' \<Rightarrow> er' \<noteq> EINTR \<and> r = Inr ([], Some er')"
      by (cases "env (i + n)") simp_all
    with n have "\<exists>n. (\<forall>j<n. env (i + j) = Fails EINTR) \<and>
               (case env (i + n) of
                  Ready e es \<Rightarrow> \<exists>c cs. r = Inr (c # cs, None)
                | Quiet \<Rightarrow> r = Inr ([], None)
                | Fails er' \<Rightarrow> er' \<noteq> EINTR \<and> r = Inr ([], Some er'))"
      by (intro exI conjI)
    with same show ?thesis by (rule conjI)
  qed
  show ?thesis
  proof (intro conjI)
    show "(\<forall>j<k. env (i + j) = Fails EINTR) \<and> env (i + k) = Ready ev evs \<longrightarrow>
            Wait w env i =
              Some (Inr (index (connections (ep w)) (sint (Fd ev)) #
                         map (\<lambda>e. index (connections (ep w)) (sint (Fd e))) (take 99 evs), None), w)"
      by (rule impI) (rule ready)
    show "(\<forall>j<k. env (i + j) = Fails EINTR) \<and> env (i + k) = Quiet \<longrightarrow>
            Wait w env i = Some (Inr ([], None), w)"
      by (rule impI) (rule quiet)
    show "(\<forall>j<k. env (i + j) = Fails EINTR) \<and> env (i + k) = Fails er \<and> er \<noteq> EINTR \<longrightarrow>
            Wait w env i = Some (Inr ([], Some er), w)"
      by (rule impI) (rule fails)
    show "(\<forall>j. env (i + j) = Fails EINTR) \<longrightarrow> Wait w env i = None"
      by (rule impI) (rule never)
    show "Wait w env i = Some (r, w') \<longrightarrow>
            w' = w \<and>
            (\<exists>n. (\<forall>j<n. env (i + j) = Fails EINTR) \<and>
               (case env (i + n) of
                  Ready e es \<Rightarrow> \<exists>c cs. r = Inr (c # cs, None)
                | Quiet \<Rightarrow> r = Inr ([], None)
                | Fails er' \<Rightarrow> er' \<noteq> EINTR \<and> r = Inr ([], Some er')))"
      by (rule impI) (rule only)
  qed
qed

text \<open>
  Four runs of it: interrupted twice and then ready; nothing ready; interrupted and then
  \<open>EBADF\<close>; interrupted for ever.
\<close>

theorem Wait_returns_when_witness:
  "reachable serving \<and>
   interrupted_twice 0 = Fails EINTR \<and> interrupted_twice 1 = Fails EINTR \<and>
   interrupted_twice 2 = Ready (interest_event 7) [interest_event 9] \<and>
   Wait serving interrupted_twice 0 = Some (Inr ([TCPConn 7, NilConn], None), serving) \<and>
   never_ready 0 = Quiet \<and>
   Wait serving never_ready 0 = Some (Inr ([], None), serving) \<and>
   interrupted_then_broken 0 = Fails EINTR \<and> interrupted_then_broken 1 = Fails EBADF \<and>
   Wait serving interrupted_then_broken 0 = Some (Inr ([], Some EBADF), serving) \<and>
   Wait serving always_interrupted 0 = None"
proof -
  note t = Wait_returns_when[OF reachable_serving]
  have h2: "(\<forall>j<2. interrupted_twice (0 + j) = Fails EINTR) \<and>
      interrupted_twice (0 + 2) = Ready (interest_event 7) [interest_event 9]"
    by (simp add: interrupted_twice_def)
  have q: "(\<forall>j<0. never_ready (0 + j) = Fails EINTR) \<and> never_ready (0 + 0) = Quiet"
    by (simp add: never_ready_def)
  have b: "(\<forall>j<1. interrupted_then_broken (0 + j) = Fails EINTR) \<and>
      interrupted_then_broken (0 + 1) = Fails EBADF \<and> EBADF \<noteq> EINTR"
    by (simp add: interrupted_then_broken_def)
  have a: "\<forall>j. always_interrupted (0 + j) = Fails EINTR"
    by (simp add: always_interrupted_def)
  have r1: "Wait serving interrupted_twice 0 = Some (Inr ([TCPConn 7, NilConn], None), serving)"
    using t[where env = interrupted_twice and i = 0 and k = 2, THEN conjunct1, THEN mp, OF h2]
    by (simp add: serving_def index_def interest_event_def)
  note r2 = t[where env = never_ready and i = 0 and k = 0,
      THEN conjunct2, THEN conjunct1, THEN mp, OF q]
  note r3 = t[where env = interrupted_then_broken and i = 0 and k = 1 and er = EBADF,
      THEN conjunct2, THEN conjunct2, THEN conjunct1, THEN mp, OF b]
  note r4 = t[where env = always_interrupted and i = 0,
      THEN conjunct2, THEN conjunct2, THEN conjunct2, THEN conjunct1, THEN mp, OF a]
  have e: "interrupted_twice 0 = Fails EINTR" "interrupted_twice 1 = Fails EINTR"
    "interrupted_twice 2 = Ready (interest_event 7) [interest_event 9]"
    "never_ready 0 = Quiet"
    "interrupted_then_broken 0 = Fails EINTR" "interrupted_then_broken 1 = Fails EBADF"
    by (simp_all add: interrupted_twice_def never_ready_def interrupted_then_broken_def)
  from reachable_serving e r1 r2 r3 r4 show ?thesis by (intro conjI)
qed

text \<open>
  C3: when the registration system call of \<^verbatim>\<open>Add\<close> fails, \<^verbatim>\<open>Add\<close> returns that error
  and the state, the table in it, is as before; the same for \<^verbatim>\<open>Remove\<close> and the
  deregistration.
\<close>

theorem failed_ctl_leaves_table:
  assumes "socketFD c = Inr sysfd"
  shows "(fst (EpollCtl fault (interest w) (fd (ep w)) EPOLL_CTL_ADD sysfd (Some (interest_event sysfd))) = Some er
            \<longrightarrow> Add fault c w = Some (Inr (Some er), w)) \<and>
         (fst (EpollCtl fault (interest w) (fd (ep w)) EPOLL_CTL_DEL sysfd None) = Some er
            \<longrightarrow> Remove fault c w = Some (Inr (Some er), w))"
  using Add_ctl_failure[OF assms] Remove_ctl_failure[OF assms] by blast

text \<open>Two failing calls: no space to register 9; 9 is not registered.\<close>

theorem failed_ctl_leaves_table_witness:
  "socketFD (TCPConn 9) = Inr 9 \<and>
   fst (EpollCtl (Some ENOSPC) (interest serving) (fd (ep serving)) EPOLL_CTL_ADD 9 (Some (interest_event 9))) = Some ENOSPC \<and>
   Add (Some ENOSPC) (TCPConn 9) serving = Some (Inr (Some ENOSPC), serving) \<and>
   fst (EpollCtl None (interest serving) (fd (ep serving)) EPOLL_CTL_DEL 9 None) = Some ENOENT \<and>
   Remove None (TCPConn 9) serving = Some (Inr (Some ENOENT), serving)"
proof -
  have a: "fst (EpollCtl (Some ENOSPC) (interest serving) (fd (ep serving)) EPOLL_CTL_ADD 9 (Some (interest_event 9))) = Some ENOSPC"
    by (simp add: EpollCtl_def)
  have r: "fst (EpollCtl None (interest serving) (fd (ep serving)) EPOLL_CTL_DEL 9 None) = Some ENOENT"
    by (simp add: EpollCtl_def serving_def)
  note t1 = failed_ctl_leaves_table[OF socketFD_TCPConn[of 9],
      where fault = "Some ENOSPC" and w = serving and er = ENOSPC]
  note t2 = failed_ctl_leaves_table[OF socketFD_TCPConn[of 9],
      where fault = None and w = serving and er = ENOENT]
  have "Add (Some ENOSPC) (TCPConn 9) serving = Some (Inr (Some ENOSPC), serving)"
    by (rule t1[THEN conjunct1, THEN mp, OF a])
  moreover have "Remove None (TCPConn 9) serving = Some (Inr (Some ENOENT), serving)"
    by (rule t2[THEN conjunct2, THEN mp, OF r])
  ultimately show ?thesis using a r socketFD_TCPConn[of 9] by (intro conjI)
qed

text \<open>
  C4, as stated, fails. \<^verbatim>\<open>socketFD\<close> returns an \<^verbatim>\<open>int\<close> and no error: on a handle with
  no descriptor inside, the reflective walk panics, and so do \<^verbatim>\<open>Add\<close> and \<^verbatim>\<open>Remove\<close>;
  neither returns an error value.
\<close>

theorem no_descriptor_error_counterexample:
  "socketFD pipe_end = Inl ReflectPanic \<and>
   Add None pipe_end started = Some (Inl ReflectPanic, started) \<and>
   \<not> returned_error (Add None pipe_end started) \<and>
   Remove None pipe_end started = Some (Inl ReflectPanic, started) \<and>
   \<not> returned_error (Remove None pipe_end started)"
  by (simp add: socketFD_pipe_end Add_panics Remove_panics returned_error_def)

lemma Indirect_deref: "Indirect v = (case deref v of None \<Rightarrow> Invalid | Some x \<Rightarrow> x)"
  by (cases v) simp_all

lemma Int_value_int_of: "Int_value v = (case int_of v of None \<Rightarrow> Inl ReflectPanic | Some i \<Rightarrow> Inr i)"
  by (cases v) simp_all

lemma socketFD_extract:
  "socketFD c = (case extract_descriptor c of None \<Rightarrow> Inl ReflectPanic | Some d \<Rightarrow> Inr d)"
proof (cases c)
  case NilConn
  then show ?thesis by (simp add: socketFD_def extract_descriptor_def)
next
  case (Conn v)
  show ?thesis
  proof (cases "deref v")
    case None
    then have "Indirect v = Invalid" by (simp add: Indirect_deref)
    with Conn None show ?thesis by (simp add: socketFD_def extract_descriptor_def)
  next
    case (Some s)
    then have s: "Indirect v = s" by (simp add: Indirect_deref)
    show ?thesis
    proof (cases "field ''conn'' s")
      case None
      then have "FieldByName s ''conn'' = Inl ReflectPanic \<or> FieldByName s ''conn'' = Inr Invalid"
        by (cases s) simp_all
      with Conn Some s None show ?thesis
        by (auto simp: socketFD_def extract_descriptor_def)
    next
      case inner: (Some inner)
      then have f1: "FieldByName s ''conn'' = Inr inner" by (cases s) simp_all
      show ?thesis
      proof (cases "field ''fd'' inner")
        case None
        then have "FieldByName inner ''fd'' = Inl ReflectPanic \<or> FieldByName inner ''fd'' = Inr Invalid"
          by (cases inner) simp_all
        with Conn Some s inner f1 None show ?thesis
          by (auto simp: socketFD_def extract_descriptor_def)
      next
        case p: (Some p)
        then have f2: "FieldByName inner ''fd'' = Inr p" by (cases inner) simp_all
        show ?thesis
        proof (cases "deref p")
          case None
          then have "Indirect p = Invalid" by (simp add: Indirect_deref)
          with Conn Some s inner f1 p f2 None show ?thesis
            by (simp add: socketFD_def extract_descriptor_def)
        next
          case netfd: (Some netfd)
          then have n: "Indirect p = netfd" by (simp add: Indirect_deref)
          show ?thesis
          proof (cases "field ''pfd'' netfd")
            case None
            then have "FieldByName netfd ''pfd'' = Inl ReflectPanic \<or> FieldByName netfd ''pfd'' = Inr Invalid"
              by (cases netfd) simp_all
            with Conn Some s inner f1 p f2 netfd n None show ?thesis
              by (auto simp: socketFD_def extract_descriptor_def)
          next
            case pfd: (Some pfd)
            then have f3: "FieldByName netfd ''pfd'' = Inr pfd" by (cases netfd) simp_all
            show ?thesis
            proof (cases "field ''Sysfd'' pfd")
              case None
              then have "FieldByName pfd ''Sysfd'' = Inl ReflectPanic \<or> FieldByName pfd ''Sysfd'' = Inr Invalid"
                by (cases pfd) simp_all
              with Conn Some s inner f1 p f2 netfd n pfd f3 None show ?thesis
                by (auto simp: socketFD_def extract_descriptor_def)
            next
              case x: (Some x)
              then have f4: "FieldByName pfd ''Sysfd'' = Inr x" by (cases pfd) simp_all
              with Conn Some s inner f1 p f2 netfd n pfd f3 x show ?thesis
                by (simp add: socketFD_def extract_descriptor_def Int_value_int_of)
            qed
          qed
        qed
      qed
    qed
  qed
qed

text \<open>
  C4, amended: resolving the handle's descriptor has no error result. \<^verbatim>\<open>socketFD\<close>
  returns the descriptor of a handle that exposes one, and panics on every handle that
  exposes none; \<^verbatim>\<open>Add\<close> and \<^verbatim>\<open>Remove\<close> then pass the panic on to their caller before
  any system call, and no state is changed.
\<close>

theorem no_descriptor_panics:
  "socketFD c = (case extract_descriptor c of None \<Rightarrow> Inl ReflectPanic | Some d \<Rightarrow> Inr d) \<and>
   (extract_descriptor c = None \<longrightarrow>
      Add fault c w = Some (Inl ReflectPanic, w) \<and> Remove fault c w = Some (Inl ReflectPanic, w))"
proof (intro conjI impI)
  show "socketFD c = (case extract_descriptor c of None \<Rightarrow> Inl ReflectPanic | Some d \<Rightarrow> Inr d)"
    by (rule socketFD_extract)
next
  assume "extract_descriptor c = None"
  then have p: "socketFD c = Inl ReflectPanic" by (simp add: socketFD_extract)
  show "Add fault c w = Some (Inl ReflectPanic, w)" by (rule Add_panics[OF p])
  show "Remove fault c w = Some (Inl ReflectPanic, w)" by (rule Remove_panics[OF p])
qed

text \<open>
  The \<^verbatim>\<open>nil\<close> handle, a connection with no \<^verbatim>\<open>Sysfd\<close> and one with a nil \<^verbatim>\<open>fd\<close>
  panic; the TCP connection on descriptor 7 resolves.
\<close>

theorem no_descriptor_panics_witness:
  "extract_descriptor NilConn = None \<and>
   Add None NilConn serving = Some (Inl ReflectPanic, serving) \<and>
   Remove None NilConn serving = Some (Inl ReflectPanic, serving) \<and>
   extract_descriptor hollow = None \<and>
   Add None hollow serving = Some (Inl ReflectPanic, serving) \<and>
   extract_descriptor unopened = None \<and>
   Remove None unopened serving = Some (Inl ReflectPanic, serving) \<and>
   extract_descriptor (TCPConn 7) = Some 7 \<and>
   socketFD (TCPConn 7) = Inr 7"
proof -
  have n: "extract_descriptor NilConn = None" by (simp add: extract_descriptor_def)
  have h: "extract_descriptor hollow = None" by (simp add: extract_descriptor_def hollow_def)
  have u: "extract_descriptor unopened = None" by (simp add: extract_descriptor_def unopened_def)
  have t: "extract_descriptor (TCPConn 7) = Some 7" by (simp add: extract_descriptor_def TCPConn_def)
  note a = no_descriptor_panics[where c = NilConn and fault = None and w = serving,
      THEN conjunct2, THEN mp, OF n]
  note b = no_descriptor_panics[where c = hollow and fault = None and w = serving,
      THEN conjunct2, THEN mp, OF h]
  note c = no_descriptor_panics[where c = unopened and fault = None and w = serving,
      THEN conjunct2, THEN mp, OF u]
  have d: "socketFD (TCPConn 7) = Inr 7"
    using no_descriptor_panics[where c = "TCPConn 7", THEN conjunct1] t by simp
  from n a[THEN conjunct1] a[THEN conjunct2] h b[THEN conjunct1] u c[THEN conjunct2] t d
  show ?thesis by (intro conjI)
qed

text \<open>
  C5: in a reachable state, \<^verbatim>\<open>Remove\<close> of a handle whose descriptor is not in the table
  returns an error (\<open>ENOENT\<close>, or the fault the environment raised) and leaves the state
  as it was.
\<close>

theorem Remove_unregistered_fails:
  assumes "reachable w" and "socketFD c = Inr sysfd"
    and "sysfd \<notin> fmdom' (connections (ep w))"
  shows "Remove fault c w = Some (Inr (Some (case fault of None \<Rightarrow> ENOENT | Some er \<Rightarrow> er)), w)"
proof -
  from reachable_tracking[OF assms(1)] assms(3) have "sysfd \<notin> fmdom' (interest w)" by simp
  then have "fmlookup (interest w) sysfd = None" by (rule fmdom'_notD)
  then have "fst (EpollCtl fault (interest w) (fd (ep w)) EPOLL_CTL_DEL sysfd None) =
      Some (case fault of None \<Rightarrow> ENOENT | Some er \<Rightarrow> er)"
    by (simp add: EpollCtl_DEL_absent)
  with assms(2) show ?thesis by (rule Remove_ctl_failure)
qed

text \<open>Descriptor 7 never added, and added then removed.\<close>

theorem Remove_unregistered_fails_witness:
  "reachable started \<and> socketFD (TCPConn 7) = Inr 7 \<and> 7 \<notin> fmdom' (connections (ep started)) \<and>
   Remove None (TCPConn 7) started = Some (Inr (Some ENOENT), started) \<and>
   reachable emptied \<and> 7 \<notin> fmdom' (connections (ep emptied)) \<and>
   Remove None (TCPConn 7) emptied = Some (Inr (Some ENOENT), emptied)"
proof -
  have n1: "7 \<notin> fmdom' (connections (ep started))" by (simp add: started_def)
  have n2: "7 \<notin> fmdom' (connections (ep emptied))" by (simp add: emptied_def)
  from Remove_unregistered_fails[OF reachable_started socketFD_TCPConn n1, where fault = None]
  have r1: "Remove None (TCPConn 7) started = Some (Inr (Some ENOENT), started)" by simp
  from Remove_unregistered_fails[OF reachable_emptied socketFD_TCPConn n2, where fault = None]
  have r2: "Remove None (TCPConn 7) emptied = Some (Inr (Some ENOENT), emptied)" by simp
  show ?thesis
    using reachable_started socketFD_TCPConn[of 7] n1 r1 reachable_emptied n2 r2 by (intro conjI)
qed



text \<open>
  C10: \<^verbatim>\<open>Remove\<close> of a handle does what \<^verbatim>\<open>Remove\<close> of any other handle with the same
  descriptor does; when the table maps that descriptor to \<open>h1\<close> and \<^verbatim>\<open>Remove\<close> is called
  with \<open>h2\<close> and succeeds, the descriptor is gone from the interest list and the entry
  that mapped to \<open>h1\<close> is gone from the table.
\<close>

theorem Remove_goes_by_descriptor:
  assumes "socketFD h1 = Inr sysfd" and "socketFD h2 = Inr sysfd"
    and "fmlookup (connections (ep w)) sysfd = Some h1"
  shows "Remove fault h2 w = Remove fault h1 w \<and>
         (Remove fault h2 w = Some (Inr None, w') \<longrightarrow>
            connections (ep w') = fmdrop sysfd (connections (ep w)) \<and>
            interest w' = fmdrop sysfd (interest w) \<and>
            fmlookup (connections (ep w')) sysfd = None)"
proof (intro conjI impI)
  show "Remove fault h2 w = Remove fault h1 w"
    by (simp add: Remove_def assms(1,2))
next
  assume "Remove fault h2 w = Some (Inr None, w')"
  then have w': "w' = \<lparr>ep = (ep w)\<lparr>connections := fmdrop sysfd (connections (ep w))\<rparr>,
             interest = fmdrop sysfd (interest w),
             printed = log_total (fmdrop sysfd (connections (ep w))) (printed w)\<rparr>"
    using assms(2) by (cases rule: Remove_cases) simp_all
  show "connections (ep w') = fmdrop sysfd (connections (ep w))" by (simp add: w')
  show "interest w' = fmdrop sysfd (interest w)" by (simp add: w')
  show "fmlookup (connections (ep w')) sysfd = None" by (simp add: w')
qed

text \<open>Added as \<^term>\<open>TCPConn 7\<close>, removed through another handle on descriptor 7.\<close>

theorem Remove_goes_by_descriptor_witness:
  "socketFD (TCPConn 7) = Inr 7 \<and> socketFD other_handle = Inr 7 \<and> other_handle \<noteq> TCPConn 7 \<and>
   fmlookup (connections (ep serving)) 7 = Some (TCPConn 7) \<and>
   Remove None other_handle serving = Some (Inr None, emptied) \<and>
   connections (ep emptied) = fmdrop 7 (connections (ep serving)) \<and>
   interest emptied = fmdrop 7 (interest serving) \<and>
   fmlookup (connections (ep emptied)) 7 = None"
proof -
  have t: "fmlookup (connections (ep serving)) 7 = Some (TCPConn 7)"
    by (simp add: serving_def)
  note g = Remove_goes_by_descriptor[OF socketFD_TCPConn[of 7] socketFD_other_handle t,
      where fault = None and w' = emptied]
  from g[THEN conjunct1] Remove_serving_7
  have r: "Remove None other_handle serving = Some (Inr None, emptied)" by simp
  from g[THEN conjunct2, THEN mp, OF r] socketFD_TCPConn[of 7] socketFD_other_handle
    other_handle_differs t r
  show ?thesis by (intro conjI) (elim conjE, assumption)+
qed

subsection \<open>Concurrent calls of \<^verbatim>\<open>Add\<close>\<close>

lemma Add_step_cases:
  assumes "Add_step t w = Some (t', w')"
  obtains
    (panic) p where "pc t = Entered" "t' = t\<lparr>pc := Ended (Inl p)\<rparr>" "w' = w"
  | (failed) er where "pc t = Entered" "t' = t\<lparr>pc := Ended (Inr (Some er))\<rparr>" "w' = w"
  | (registered) d where "pc t = Entered" "socketFD (handle t) = Inr d" "ctl_fault t = None"
      "fmlookup (interest w) d = None"
      "t' = t\<lparr>pc := Registered d\<rparr>"
      "w' = w\<lparr>interest := fmupd d (interest_event d) (interest w)\<rparr>"
  | (locked) d held where "pc t = Registered d" "Lock (lock (ep w)) = Some held"
      "t' = t\<lparr>pc := Holding d\<rparr>" "w' = w\<lparr>ep := (ep w)\<lparr>lock := held\<rparr>\<rparr>"
  | (viewed) d where "pc t = Holding d" "t' = t\<lparr>pc := Writing d (connections (ep w))\<rparr>" "w' = w"
  | (written) d seen where "pc t = Writing d seen" "t' = t\<lparr>pc := Written\<rparr>"
      "w' = w\<lparr>ep := (ep w)\<lparr>connections := fmupd d (handle t) seen\<rparr>,
              printed := log_total (fmupd d (handle t) seen) (printed w)\<rparr>"
  | (unlocked) free where "pc t = Written" "Unlock (lock (ep w)) = Inr free"
      "t' = t\<lparr>pc := Ended (Inr None)\<rparr>" "w' = w\<lparr>ep := (ep w)\<lparr>lock := free\<rparr>\<rparr>"
  | (fatal) p where "pc t = Written" "Unlock (lock (ep w)) = Inl p"
      "t' = t\<lparr>pc := Ended (Inl p)\<rparr>" "w' = w"
proof (cases "pc t")
  case Entered
  show ?thesis
  proof (cases "socketFD (handle t)")
    case (Inl p)
    with assms Entered have "t' = t\<lparr>pc := Ended (Inl p)\<rparr>" "w' = w"
      by (simp_all add: Add_step_def)
    with Entered show ?thesis by (rule panic)
  next
    case (Inr d)
    obtain e k where ek: "EpollCtl (ctl_fault t) (interest w) (fd (ep w)) EPOLL_CTL_ADD d
        (Some (interest_event d)) = (e, k)"
      by (cases "EpollCtl (ctl_fault t) (interest w) (fd (ep w)) EPOLL_CTL_ADD d (Some (interest_event d))")
    show ?thesis
    proof (cases e)
      case None
      with ek have ok: "ctl_fault t = None" "fmlookup (interest w) d = None"
        "k = fmupd d (interest_event d) (interest w)"
        by (simp_all add: EpollCtl_ADD_ok)
      from assms Entered Inr ek None have "t' = t\<lparr>pc := Registered d\<rparr>" "w' = w\<lparr>interest := k\<rparr>"
        by (simp_all add: Add_step_def)
      with ok have "t' = t\<lparr>pc := Registered d\<rparr>"
        "w' = w\<lparr>interest := fmupd d (interest_event d) (interest w)\<rparr>" by simp_all
      with Entered Inr ok(1,2) show ?thesis by (rule registered)
    next
      case (Some er)
      with ek have "k = interest w" by (simp add: EpollCtl_failure)
      with assms Entered Inr ek Some have "t' = t\<lparr>pc := Ended (Inr (Some er))\<rparr>" "w' = w"
        by (simp_all add: Add_step_def)
      with Entered show ?thesis by (rule failed)
    qed
  qed
next
  case (Registered d)
  show ?thesis
  proof (cases "Lock (lock (ep w))")
    case None
    with assms Registered show ?thesis by (simp add: Add_step_def)
  next
    case (Some held)
    with assms Registered have "t' = t\<lparr>pc := Holding d\<rparr>" "w' = w\<lparr>ep := (ep w)\<lparr>lock := held\<rparr>\<rparr>"
      by (simp_all add: Add_step_def)
    with Registered Some show ?thesis by (rule locked)
  qed
next
  case (Holding d)
  with assms have "t' = t\<lparr>pc := Writing d (connections (ep w))\<rparr>" "w' = w"
    by (auto simp: Add_step_def)
  with Holding show ?thesis by (rule viewed)
next
  case (Writing d seen)
  with assms have "t' = t\<lparr>pc := Written\<rparr>"
      "w' = w\<lparr>ep := (ep w)\<lparr>connections := fmupd d (handle t) seen\<rparr>,
              printed := log_total (fmupd d (handle t) seen) (printed w)\<rparr>"
    by (simp_all add: Add_step_def Let_def)
  with Writing show ?thesis by (rule written)
next
  case Written
  show ?thesis
  proof (cases "Unlock (lock (ep w))")
    case (Inl p)
    with assms Written have "t' = t\<lparr>pc := Ended (Inl p)\<rparr>" "w' = w"
      by (simp_all add: Add_step_def)
    with Written Inl show ?thesis by (rule fatal)
  next
    case (Inr free)
    with assms Written have "t' = t\<lparr>pc := Ended (Inr None)\<rparr>" "w' = w\<lparr>ep := (ep w)\<lparr>lock := free\<rparr>\<rparr>"
      by (simp_all add: Add_step_def)
    with Written Inr show ?thesis by (rule unlocked)
  qed
next
  case (Ended r)
  with assms show ?thesis by (simp add: Add_step_def)
qed

lemma holders_update:
  "i < length ts \<Longrightarrow>
   holders (ts[i := t]) + (if holding (pc (ts ! i)) then 1 else 0) =
   holders ts + (if holding (pc t) then 1 else 0)"
  unfolding holders_def
proof (induction ts arbitrary: i)
  case Nil
  then show ?case by simp
next
  case (Cons a ts)
  show ?case
  proof (cases i)
    case 0
    then show ?thesis by simp
  next
    case (Suc j)
    with Cons.prems have "j < length ts" by simp
    from Cons.IH[OF this] show ?thesis using Suc by simp
  qed
qed

lemma holders_positive: "i < length ts \<Longrightarrow> holding (pc (ts ! i)) \<Longrightarrow> 0 < holders ts"
proof -
  assume "i < length ts" "holding (pc (ts ! i))"
  then have "\<exists>t\<in>set ts. holding (pc t)" using nth_mem by blast
  then have "filter (\<lambda>t. holding (pc t)) ts \<noteq> []" by (simp add: filter_empty_conv)
  then show ?thesis by (simp add: holders_def)
qed

lemma one_holder:
  assumes "holders ts \<le> 1" "i < length ts" "j < length ts"
    and "holding (pc (ts ! i))" "holding (pc (ts ! j))"
  shows "i = j"
proof (rule ccontr)
  assume ne: "i \<noteq> j"
  define idle where "idle = (ts ! i)\<lparr>pc := Entered\<rparr>"
  have "holders (ts[i := idle]) + 1 = holders ts"
    using holders_update[OF assms(2), of idle] assms(4) by (simp add: idle_def)
  moreover have "0 < holders (ts[i := idle])"
  proof (rule holders_positive[of j])
    show "j < length (ts[i := idle])" using assms(3) by simp
    show "holding (pc (ts[i := idle] ! j))" using ne assms(5) by simp
  qed
  ultimately show False using assms(1) by simp
qed

lemma exclusive_step:
  assumes ex: "exclusive epfd ts w" and i: "i < length ts"
    and step: "Add_step (ts ! i) w = Some (t', w')"
  shows "exclusive epfd (ts[i := t']) w'"
proof -
  note count = holders_update[OF i, of t']
  from ex have f: "fd (ep w) = epfd" and r: "readers (lock (ep w)) = 0"
    and h: "holders ts = (if writer (lock (ep w)) then 1 else 0)"
    by (simp_all add: exclusive_def)
  from step show ?thesis
  proof (cases rule: Add_step_cases)
    case (panic p)
    with count f r h show ?thesis by (simp add: exclusive_def)
  next
    case (failed er)
    with count f r h show ?thesis by (simp add: exclusive_def)
  next
    case (registered d)
    with count f r h show ?thesis by (simp add: exclusive_def)
  next
    case (locked d held)
    from locked(2) have "\<not> writer (lock (ep w))" "writer held" "readers held = 0"
      by (auto simp: Lock_def split: if_splits)
    with count f h locked show ?thesis by (simp add: exclusive_def)
  next
    case (viewed d)
    with count f r h show ?thesis by (simp add: exclusive_def)
  next
    case (written d seen)
    with count f r h show ?thesis by (simp add: exclusive_def)
  next
    case (unlocked free)
    from unlocked(2) have "writer (lock (ep w))" "\<not> writer free" "readers free = readers (lock (ep w))"
      by (auto simp: Unlock_def split: if_splits)
    with count f r h unlocked show ?thesis by (simp add: exclusive_def)
  next
    case (fatal p)
    from holders_positive[OF i] fatal(1) have "0 < holders ts" by simp
    with h have "writer (lock (ep w))" by (simp split: if_splits)
    with fatal(2) show ?thesis by (simp add: Unlock_def)
  qed
qed

lemma table_ok_handles: "table_ok cs ts w \<Longrightarrow> map handle ts = cs"
  by (simp add: table_ok_def)

lemma table_ok_length: "table_ok cs ts w \<Longrightarrow> length cs = length ts"
  by (auto simp: table_ok_def)

lemma table_ok_handle_nth: "table_ok cs ts w \<Longrightarrow> i < length ts \<Longrightarrow> handle (ts ! i) = cs ! i"
  by (auto simp: table_ok_def)

lemma table_ok_descriptor:
  "table_ok cs ts w \<Longrightarrow> i < length ts \<Longrightarrow> known (pc (ts ! i)) = Some d \<Longrightarrow>
   socketFD (cs ! i) = Inr d"
  unfolding table_ok_def by blast

lemma table_ok_seen:
  "table_ok cs ts w \<Longrightarrow> i < length ts \<Longrightarrow> pc (ts ! i) = Writing d seen \<Longrightarrow>
   seen = connections (ep w)"
  unfolding table_ok_def by blast

lemma table_ok_key:
  "table_ok cs ts w \<Longrightarrow> fmlookup (connections (ep w)) d = Some c \<Longrightarrow>
   \<exists>i<length ts. socketFD (cs ! i) = Inr d"
  unfolding table_ok_def by blast

lemma table_ok_entry:
  "table_ok cs ts w \<Longrightarrow> i < length ts \<Longrightarrow> past_write (pc (ts ! i)) \<Longrightarrow>
   \<exists>d. socketFD (cs ! i) = Inr d \<and> fmlookup (connections (ep w)) d = Some (cs ! i)"
  unfolding table_ok_def by blast

lemma table_okI:
  assumes "map handle ts = cs"
    and "\<And>i d. i < length ts \<Longrightarrow> known (pc (ts ! i)) = Some d \<Longrightarrow> socketFD (cs ! i) = Inr d"
    and "\<And>i d seen. i < length ts \<Longrightarrow> pc (ts ! i) = Writing d seen \<Longrightarrow>
           seen = connections (ep w)"
    and "\<And>d c. fmlookup (connections (ep w)) d = Some c \<Longrightarrow>
           \<exists>i<length ts. socketFD (cs ! i) = Inr d"
    and "\<And>i. i < length ts \<Longrightarrow> past_write (pc (ts ! i)) \<Longrightarrow>
           \<exists>d. socketFD (cs ! i) = Inr d \<and> fmlookup (connections (ep w)) d = Some (cs ! i)"
  shows "table_ok cs ts w"
  unfolding table_ok_def using assms by blast

lemma handles_update:
  assumes "map handle ts = cs" "i < length ts" "handle t' = handle (ts ! i)"
  shows "map handle (ts[i := t']) = cs"
proof -
  have "map handle (ts[i := t']) = (map handle ts)[i := handle t']" by (rule map_update)
  also have "\<dots> = (map handle ts)[i := (map handle ts) ! i]" using assms(2,3) by simp
  also have "\<dots> = map handle ts" by (rule list_update_id)
  finally show ?thesis using assms(1) by simp
qed

lemma table_ok_moves:
  assumes ok: "table_ok cs ts w" and i: "i < length ts"
    and h: "handle t' = handle (ts ! i)"
    and same: "connections (ep w') = connections (ep w)"
    and desc: "\<And>d. known (pc t') = Some d \<Longrightarrow> socketFD (cs ! i) = Inr d"
    and seen: "\<And>d seen. pc t' = Writing d seen \<Longrightarrow> seen = connections (ep w)"
    and entry: "past_write (pc t') \<Longrightarrow>
           \<exists>d. socketFD (cs ! i) = Inr d \<and> fmlookup (connections (ep w)) d = Some (cs ! i)"
  shows "table_ok cs (ts[i := t']) w'"
proof (rule table_okI)
  show "map handle (ts[i := t']) = cs"
    by (rule handles_update[OF table_ok_handles[OF ok] i h])
next
  fix j d assume j: "j < length (ts[i := t'])"
    and p: "known (pc (ts[i := t'] ! j)) = Some d"
  show "socketFD (cs ! j) = Inr d"
  proof (cases "j = i")
    case True
    with p i have "known (pc t') = Some d" by simp
    then show ?thesis using True by (simp add: desc)
  next
    case False
    with p have "known (pc (ts ! j)) = Some d" by simp
    moreover from j have "j < length ts" by simp
    ultimately show ?thesis using ok by (simp add: table_ok_descriptor)
  qed
next
  fix j d sn assume j: "j < length (ts[i := t'])"
    and p: "pc (ts[i := t'] ! j) = Writing d sn"
  show "sn = connections (ep w')"
  proof (cases "j = i")
    case True
    with p i have "pc t' = Writing d sn" by simp
    from seen[OF this] show ?thesis by (simp add: same)
  next
    case False
    with p have "pc (ts ! j) = Writing d sn" by simp
    moreover from j have "j < length ts" by simp
    ultimately have "sn = connections (ep w)" using ok by (simp add: table_ok_seen)
    then show ?thesis by (simp add: same)
  qed
next
  fix d c assume "fmlookup (connections (ep w')) d = Some c"
  then have "fmlookup (connections (ep w)) d = Some c" by (simp add: same)
  from table_ok_key[OF ok this] show "\<exists>j<length (ts[i := t']). socketFD (cs ! j) = Inr d"
    by simp
next
  fix j assume j: "j < length (ts[i := t'])"
    and p: "past_write (pc (ts[i := t'] ! j))"
  show "\<exists>d. socketFD (cs ! j) = Inr d \<and> fmlookup (connections (ep w')) d = Some (cs ! j)"
  proof (cases "j = i")
    case True
    with p i have "past_write (pc t')" by simp
    from entry[OF this] show ?thesis using True by (simp add: same)
  next
    case False
    with p have "past_write (pc (ts ! j))" by simp
    moreover from j have "j < length ts" by simp
    ultimately have "\<exists>d. socketFD (cs ! j) = Inr d \<and> fmlookup (connections (ep w)) d = Some (cs ! j)"
      using ok by (simp add: table_ok_entry)
    then show ?thesis by (simp add: same)
  qed
qed

lemma table_ok_writes:
  assumes ok: "table_ok cs ts w" and i: "i < length ts"
    and dist: "distinct (map socketFD cs)"
    and one: "holders ts \<le> 1"
    and at: "pc (ts ! i) = Writing d seen"
    and t': "t' = (ts ! i)\<lparr>pc := Written\<rparr>"
    and m: "connections (ep w') = fmupd d (handle (ts ! i)) seen"
  shows "table_ok cs (ts[i := t']) w'"
proof (rule table_okI)
  have h: "handle t' = handle (ts ! i)" by (simp add: t')
  show "map handle (ts[i := t']) = cs"
    by (rule handles_update[OF table_ok_handles[OF ok] i h])
next
  fix j d' assume j: "j < length (ts[i := t'])"
    and p: "known (pc (ts[i := t'] ! j)) = Some d'"
  show "socketFD (cs ! j) = Inr d'"
  proof (cases "j = i")
    case True
    with p i show ?thesis by (simp add: t')
  next
    case False
    with p have "known (pc (ts ! j)) = Some d'" by simp
    moreover from j have "j < length ts" by simp
    ultimately show ?thesis using ok by (simp add: table_ok_descriptor)
  qed
next
  fix j d' sn assume j: "j < length (ts[i := t'])"
    and p: "pc (ts[i := t'] ! j) = Writing d' sn"
  show "sn = connections (ep w')"
  proof (cases "j = i")
    case True
    with p i show ?thesis by (simp add: t')
  next
    case False
    from j have jl: "j < length ts" by simp
    from False p have "pc (ts ! j) = Writing d' sn" by simp
    then have "holding (pc (ts ! j))" by simp
    moreover from at have "holding (pc (ts ! i))" by simp
    ultimately have "i = j" using one i jl by (simp add: one_holder)
    with False show ?thesis by simp
  qed
next
  have di: "socketFD (cs ! i) = Inr d"
    using ok i at by (simp add: table_ok_descriptor)
  have sn: "seen = connections (ep w)"
    using ok i at by (rule table_ok_seen)
  fix d' c assume l: "fmlookup (connections (ep w')) d' = Some c"
  show "\<exists>j<length (ts[i := t']). socketFD (cs ! j) = Inr d'"
  proof (cases "d' = d")
    case True
    with di i show ?thesis by auto
  next
    case False
    with l have "fmlookup (connections (ep w)) d' = Some c" by (simp add: m sn)
    from table_ok_key[OF ok this] show ?thesis by simp
  qed
next
  have di: "socketFD (cs ! i) = Inr d"
    using ok i at by (simp add: table_ok_descriptor)
  have sn: "seen = connections (ep w)"
    using ok i at by (rule table_ok_seen)
  have hi: "handle (ts ! i) = cs ! i"
    using ok i by (rule table_ok_handle_nth)
  fix j assume j: "j < length (ts[i := t'])"
    and p: "past_write (pc (ts[i := t'] ! j))"
  show "\<exists>d'. socketFD (cs ! j) = Inr d' \<and> fmlookup (connections (ep w')) d' = Some (cs ! j)"
  proof (cases "j = i")
    case True
    have "socketFD (cs ! i) = Inr d \<and> fmlookup (connections (ep w')) d = Some (cs ! i)"
      using di hi by (simp add: m)
    then show ?thesis using True by blast
  next
    case False
    from j have jl: "j < length ts" by simp
    from False p have "past_write (pc (ts ! j))" by simp
    with ok jl obtain d' where
      d': "socketFD (cs ! j) = Inr d'" "fmlookup (connections (ep w)) d' = Some (cs ! j)"
      using table_ok_entry[of cs ts w j] by blast
    from dist have "(map socketFD cs ! j = map socketFD cs ! i) = (j = i)"
      by (rule nth_eq_iff_index_eq) (simp_all add: jl i table_ok_length[OF ok])
    with False have "map socketFD cs ! j \<noteq> map socketFD cs ! i" by simp
    then have "socketFD (cs ! j) \<noteq> socketFD (cs ! i)"
      using jl i table_ok_length[OF ok] by simp
    with d'(1) di have "d' \<noteq> d" by auto
    with d' have "socketFD (cs ! j) = Inr d' \<and> fmlookup (connections (ep w')) d' = Some (cs ! j)"
      by (simp add: m sn)
    then show ?thesis by blast
  qed
qed

lemma table_ok_step:
  assumes ok: "table_ok cs ts w" and i: "i < length ts"
    and dist: "distinct (map socketFD cs)"
    and one: "holders ts \<le> 1"
    and step: "Add_step (ts ! i) w = Some (t', w')"
  shows "table_ok cs (ts[i := t']) w'"
  using step
proof (cases rule: Add_step_cases)
  case (panic p)
  show ?thesis by (rule table_ok_moves[OF ok i]) (simp_all add: panic)
next
  case (failed er)
  show ?thesis by (rule table_ok_moves[OF ok i]) (simp_all add: failed)
next
  case (registered d)
  have "socketFD (cs ! i) = Inr d"
    using registered(2) table_ok_handle_nth[OF ok i] by simp
  then show ?thesis by (intro table_ok_moves[OF ok i]) (simp_all add: registered)
next
  case (locked d held)
  have "socketFD (cs ! i) = Inr d"
    using ok i locked(1) by (simp add: table_ok_descriptor)
  then show ?thesis by (intro table_ok_moves[OF ok i]) (simp_all add: locked)
next
  case (viewed d)
  have "socketFD (cs ! i) = Inr d"
    using ok i viewed(1) by (simp add: table_ok_descriptor)
  then show ?thesis by (intro table_ok_moves[OF ok i]) (simp_all add: viewed)
next
  case (written d seen)
  show ?thesis
    by (rule table_ok_writes[OF ok i dist one written(1) written(2)]) (simp add: written(3))
next
  case (unlocked free)
  have "\<exists>d. socketFD (cs ! i) = Inr d \<and> fmlookup (connections (ep w)) d = Some (cs ! i)"
    using ok i unlocked(1) by (simp add: table_ok_entry)
  then show ?thesis by (intro table_ok_moves[OF ok i]) (simp_all add: unlocked)
next
  case (fatal p)
  show ?thesis by (rule table_ok_moves[OF ok i]) (simp_all add: fatal)
qed

lemma notifier_ok_faults: "notifier_ok fs cs ts w \<Longrightarrow> map ctl_fault ts = fs"
  by (simp add: notifier_ok_def)

lemma notifier_ok_key:
  assumes "notifier_ok fs cs ts w" "fmlookup (interest w) d = Some e"
  shows "e = interest_event d \<and> (\<exists>i<length ts. socketFD (cs ! i) = Inr d)"
  by (rule assms(1)[unfolded notifier_ok_def, THEN conjunct2, THEN conjunct1, rule_format, OF assms(2)])

lemma notifier_ok_entry:
  assumes "notifier_ok fs cs ts w" "i < length ts" "past_ctl (pc (ts ! i))"
  shows "fs ! i = None \<and>
   (\<exists>d. socketFD (cs ! i) = Inr d \<and> fmlookup (interest w) d = Some (interest_event d))"
  by (rule assms(1)[unfolded notifier_ok_def, THEN conjunct2, THEN conjunct2, rule_format, OF assms(2,3)])

lemma notifier_okI:
  assumes "map ctl_fault ts = fs"
    and "\<And>d e. fmlookup (interest w) d = Some e \<Longrightarrow>
           e = interest_event d \<and> (\<exists>i<length ts. socketFD (cs ! i) = Inr d)"
    and "\<And>i. i < length ts \<Longrightarrow> past_ctl (pc (ts ! i)) \<Longrightarrow>
           fs ! i = None \<and>
           (\<exists>d. socketFD (cs ! i) = Inr d \<and> fmlookup (interest w) d = Some (interest_event d))"
  shows "notifier_ok fs cs ts w"
  unfolding notifier_ok_def
proof (intro conjI allI impI)
  show "map ctl_fault ts = fs" by (rule assms(1))
next
  fix d e assume "fmlookup (interest w) d = Some e"
  from assms(2)[OF this] show "e = interest_event d" by (rule conjunct1)
  from assms(2)[OF \<open>fmlookup (interest w) d = Some e\<close>]
  show "\<exists>i<length ts. socketFD (cs ! i) = Inr d" by (rule conjunct2)
next
  fix i assume "i < length ts" "past_ctl (pc (ts ! i))"
  from assms(3)[OF this] show "fs ! i = None" by (rule conjunct1)
  from assms(3)[OF \<open>i < length ts\<close> \<open>past_ctl (pc (ts ! i))\<close>]
  show "\<exists>d. socketFD (cs ! i) = Inr d \<and> fmlookup (interest w) d = Some (interest_event d)"
    by (rule conjunct2)
qed

lemma faults_update:
  assumes "map ctl_fault ts = fs" "i < length ts" "ctl_fault t' = ctl_fault (ts ! i)"
  shows "map ctl_fault (ts[i := t']) = fs"
proof -
  have "map ctl_fault (ts[i := t']) = (map ctl_fault ts)[i := ctl_fault t']" by (rule map_update)
  also have "\<dots> = (map ctl_fault ts)[i := (map ctl_fault ts) ! i]" using assms(2,3) by simp
  also have "\<dots> = map ctl_fault ts" by (rule list_update_id)
  finally show ?thesis using assms(1) by simp
qed

text \<open>A step that leaves the interest list as it is, or adds the call's own descriptor.\<close>

lemma notifier_ok_moves:
  assumes ok: "notifier_ok fs cs ts w" and i: "i < length ts"
    and f: "ctl_fault t' = ctl_fault (ts ! i)"
    and grows: "interest w' = interest w \<or>
        (\<exists>d. socketFD (cs ! i) = Inr d \<and> fmlookup (interest w) d = None \<and>
             interest w' = fmupd d (interest_event d) (interest w))"
    and entry: "past_ctl (pc t') \<Longrightarrow>
           ctl_fault (ts ! i) = None \<and>
           (\<exists>d. socketFD (cs ! i) = Inr d \<and> fmlookup (interest w') d = Some (interest_event d))"
  shows "notifier_ok fs cs (ts[i := t']) w'"
proof (rule notifier_okI)
  show "map ctl_fault (ts[i := t']) = fs"
    by (rule faults_update[OF notifier_ok_faults[OF ok] i f])
next
  fix d e assume l: "fmlookup (interest w') d = Some e"
  from grows show "e = interest_event d \<and> (\<exists>j<length (ts[i := t']). socketFD (cs ! j) = Inr d)"
  proof
    assume "interest w' = interest w"
    with l have "fmlookup (interest w) d = Some e" by simp
    from notifier_ok_key[OF ok this] show ?thesis by simp
  next
    assume "\<exists>d. socketFD (cs ! i) = Inr d \<and> fmlookup (interest w) d = None \<and>
             interest w' = fmupd d (interest_event d) (interest w)"
    then obtain d0 where d0: "socketFD (cs ! i) = Inr d0"
      "interest w' = fmupd d0 (interest_event d0) (interest w)" by blast
    show ?thesis
    proof (cases "d = d0")
      case True
      with l d0 i show ?thesis by auto
    next
      case False
      with l d0 have "fmlookup (interest w) d = Some e" by simp
      from notifier_ok_key[OF ok this] show ?thesis by simp
    qed
  qed
next
  fix j assume j: "j < length (ts[i := t'])" and p: "past_ctl (pc (ts[i := t'] ! j))"
  have fi: "fs ! i = ctl_fault (ts ! i)"
    using notifier_ok_faults[OF ok] i by auto
  show "fs ! j = None \<and>
        (\<exists>d. socketFD (cs ! j) = Inr d \<and> fmlookup (interest w') d = Some (interest_event d))"
  proof (cases "j = i")
    case True
    with p i have "past_ctl (pc t')" by simp
    from entry[OF this] show ?thesis using True fi by simp
  next
    case False
    from j have jl: "j < length ts" by simp
    from False p have "past_ctl (pc (ts ! j))" by simp
    from notifier_ok_entry[OF ok jl this] obtain d where
      d: "fs ! j = None" "socketFD (cs ! j) = Inr d" "fmlookup (interest w) d = Some (interest_event d)"
      by blast
    from grows have "fmlookup (interest w') d = Some (interest_event d)"
    proof
      assume "interest w' = interest w"
      with d(3) show ?thesis by simp
    next
      assume "\<exists>d. socketFD (cs ! i) = Inr d \<and> fmlookup (interest w) d = None \<and>
             interest w' = fmupd d (interest_event d) (interest w)"
      then obtain d0 where d0: "fmlookup (interest w) d0 = None"
        "interest w' = fmupd d0 (interest_event d0) (interest w)" by blast
      from d0(1) d(3) have "d \<noteq> d0" by auto
      with d0(2) d(3) show ?thesis by simp
    qed
    with d show ?thesis by blast
  qed
qed

lemma notifier_ok_step:
  assumes ok: "notifier_ok fs cs ts w" and i: "i < length ts"
    and h: "handle (ts ! i) = cs ! i"
    and step: "Add_step (ts ! i) w = Some (t', w')"
  shows "notifier_ok fs cs (ts[i := t']) w'"
  using step
proof (cases rule: Add_step_cases)
  case (panic p)
  show ?thesis by (rule notifier_ok_moves[OF ok i]) (simp_all add: panic)
next
  case (failed er)
  show ?thesis by (rule notifier_ok_moves[OF ok i]) (simp_all add: failed)
next
  case (registered d)
  have g: "interest w' = interest w \<or>
        (\<exists>d. socketFD (cs ! i) = Inr d \<and> fmlookup (interest w) d = None \<and>
             interest w' = fmupd d (interest_event d) (interest w))"
    using registered h by auto
  have e: "ctl_fault (ts ! i) = None \<and>
           (\<exists>d. socketFD (cs ! i) = Inr d \<and> fmlookup (interest w') d = Some (interest_event d))"
    using registered h by auto
  show ?thesis
    by (rule notifier_ok_moves[OF ok i _ g]) (simp_all add: registered(5) e)
next
  case (locked d held)
  have "past_ctl (pc (ts ! i))" using locked(1) by simp
  from notifier_ok_entry[OF ok i this] notifier_ok_faults[OF ok] i
  have "ctl_fault (ts ! i) = None \<and>
      (\<exists>d. socketFD (cs ! i) = Inr d \<and> fmlookup (interest w) d = Some (interest_event d))"
    by auto
  then show ?thesis by (intro notifier_ok_moves[OF ok i]) (simp_all add: locked)
next
  case (viewed d)
  have "past_ctl (pc (ts ! i))" using viewed(1) by simp
  from notifier_ok_entry[OF ok i this] notifier_ok_faults[OF ok] i
  have "ctl_fault (ts ! i) = None \<and>
      (\<exists>d. socketFD (cs ! i) = Inr d \<and> fmlookup (interest w) d = Some (interest_event d))"
    by auto
  then show ?thesis by (intro notifier_ok_moves[OF ok i]) (simp_all add: viewed)
next
  case (written d seen)
  have "past_ctl (pc (ts ! i))" using written(1) by simp
  from notifier_ok_entry[OF ok i this] notifier_ok_faults[OF ok] i
  have "ctl_fault (ts ! i) = None \<and>
      (\<exists>d. socketFD (cs ! i) = Inr d \<and> fmlookup (interest w) d = Some (interest_event d))"
    by auto
  then show ?thesis by (intro notifier_ok_moves[OF ok i]) (simp_all add: written)
next
  case (unlocked free)
  have "past_ctl (pc (ts ! i))" using unlocked(1) by simp
  from notifier_ok_entry[OF ok i this] notifier_ok_faults[OF ok] i
  have "ctl_fault (ts ! i) = None \<and>
      (\<exists>d. socketFD (cs ! i) = Inr d \<and> fmlookup (interest w) d = Some (interest_event d))"
    by auto
  then show ?thesis by (intro notifier_ok_moves[OF ok i]) (simp_all add: unlocked)
next
  case (fatal p)
  show ?thesis by (rule notifier_ok_moves[OF ok i]) (simp_all add: fatal)
qed

lemma run_invariant:
  assumes "table_ok cs ts w" "notifier_ok fs cs ts w" "exclusive epfd ts w"
    and "distinct (map socketFD cs)"
    and "run sched (ts, w) = (ts', w')"
  shows "table_ok cs ts' w' \<and> notifier_ok fs cs ts' w' \<and> exclusive epfd ts' w'"
  using assms
proof (induction sched arbitrary: ts w)
  case Nil
  then show ?case by simp
next
  case (Cons i sched)
  show ?case
  proof (cases "i < length ts")
    case False
    with Cons.prems(5) have "run sched (ts, w) = (ts', w')" by simp
    from Cons.IH[OF Cons.prems(1,2,3,4) this] show ?thesis .
  next
    case True
    show ?thesis
    proof (cases "Add_step (ts ! i) w")
      case None
      with True Cons.prems(5) have "run sched (ts, w) = (ts', w')" by simp
      from Cons.IH[OF Cons.prems(1,2,3,4) this] show ?thesis .
    next
      case (Some a)
      obtain t1 w1 where a: "a = (t1, w1)" by (cases a)
      with Some have step: "Add_step (ts ! i) w = Some (t1, w1)" by simp
      with True Cons.prems(5) have r: "run sched (ts[i := t1], w1) = (ts', w')" by simp
      from Cons.prems(3) have one: "holders ts \<le> 1" by (simp add: exclusive_def split: if_splits)
      have 1: "table_ok cs (ts[i := t1]) w1"
        by (rule table_ok_step[OF Cons.prems(1) True Cons.prems(4) one step])
      have 2: "notifier_ok fs cs (ts[i := t1]) w1"
        by (rule notifier_ok_step[OF Cons.prems(2) True table_ok_handle_nth[OF Cons.prems(1) True] step])
      have 3: "exclusive epfd (ts[i := t1]) w1"
        by (rule exclusive_step[OF Cons.prems(3) True step])
      from Cons.IH[OF 1 2 3 Cons.prems(4) r] show ?thesis .
    qed
  qed
qed

lemma holders_enter: "holders (map enter reqs) = 0"
  by (induction reqs) (simp_all add: holders_def enter_def)

lemma table_ok_enter:
  assumes "connections (ep w) = fmempty"
  shows "table_ok (map snd reqs) (map enter reqs) w"
proof (rule table_okI)
  show "map handle (map enter reqs) = map snd reqs" by (simp add: enter_def)
qed (simp_all add: assms enter_def)

lemma notifier_ok_enter:
  assumes "interest w = fmempty"
  shows "notifier_ok (map fst reqs) (map snd reqs) (map enter reqs) w"
proof (rule notifier_okI)
  show "map ctl_fault (map enter reqs) = map fst reqs" by (simp add: enter_def)
qed (simp_all add: assms enter_def)

lemma MkEpoll_fresh:
  assumes "MkEpoll made = Inr w"
  shows "connections (ep w) = fmempty" "interest w = fmempty"
    "\<not> writer (lock (ep w))" "readers (lock (ep w)) = 0"
  using assms by (cases made; auto simp: MkEpoll_def)+

lemma Add_all_runs:
  assumes "\<forall>r\<in>set reqs. fst r = None \<and> (\<exists>d. socketFD (snd r) = Inr d)"
    and "distinct (map socketFD (map snd reqs))"
    and "\<forall>r\<in>set reqs. \<forall>d. socketFD (snd r) = Inr d \<longrightarrow> fmlookup (interest w) d = None"
    and "\<not> writer (lock (ep w))" and "readers (lock (ep w)) = 0"
  shows "\<exists>w'. Add_all reqs w = Some w' \<and> fd (ep w') = fd (ep w) \<and> lock (ep w') = lock (ep w) \<and>
           (\<forall>d. fmlookup (connections (ep w')) d =
                  (case find (\<lambda>r. socketFD (snd r) = Inr d) reqs of
                     Some r \<Rightarrow> Some (snd r)
                   | None \<Rightarrow> fmlookup (connections (ep w)) d)) \<and>
           (\<forall>d. fmlookup (interest w') d =
                  (case find (\<lambda>r. socketFD (snd r) = Inr d) reqs of
                     Some r \<Rightarrow> Some (interest_event d)
                   | None \<Rightarrow> fmlookup (interest w) d))"
  using assms
proof (induction reqs arbitrary: w)
  case Nil
  then show ?case by simp
next
  case (Cons r reqs)
  obtain c where r: "r = (None, c)" using Cons.prems(1) by (cases r) simp
  from Cons.prems(1) r obtain d0 where d0: "socketFD c = Inr d0" by auto
  from Cons.prems(3) r d0 have fresh: "fmlookup (interest w) d0 = None" by simp
  have ctl: "EpollCtl None (interest w) (fd (ep w)) EPOLL_CTL_ADD d0 (Some (interest_event d0)) =
      (None, fmupd d0 (interest_event d0) (interest w))"
    using fresh by (simp add: EpollCtl_ADD_ok)
  define w1 where "w1 = \<lparr>ep = (ep w)\<lparr>connections := fmupd d0 c (connections (ep w))\<rparr>,
                         interest = fmupd d0 (interest_event d0) (interest w),
                         printed = log_total (fmupd d0 c (connections (ep w))) (printed w)\<rparr>"
  have add: "Add None c w = Some (Inr None, w1)"
    using Add_ctl_ok[OF d0 ctl] Cons.prems(4,5) by (simp add: w1_def)
  have others: "socketFD (snd r') \<noteq> Inr d0" if "r' \<in> set reqs" for r'
  proof -
    from Cons.prems(2) r d0 have "Inr d0 \<notin> set (map socketFD (map snd reqs))" by simp
    with that show ?thesis by force
  qed
  have p1: "\<forall>r\<in>set reqs. fst r = None \<and> (\<exists>d. socketFD (snd r) = Inr d)"
    using Cons.prems(1) by simp
  have p2: "distinct (map socketFD (map snd reqs))" using Cons.prems(2) by simp
  have p3: "\<forall>r\<in>set reqs. \<forall>d. socketFD (snd r) = Inr d \<longrightarrow> fmlookup (interest w1) d = None"
  proof (intro ballI allI impI)
    fix r' d assume r': "r' \<in> set reqs" and d: "socketFD (snd r') = Inr d"
    with others[OF r'] have "d \<noteq> d0" by auto
    moreover from Cons.prems(3) r' d have "fmlookup (interest w) d = None" by simp
    ultimately show "fmlookup (interest w1) d = None" by (simp add: w1_def)
  qed
  have p4: "\<not> writer (lock (ep w1))" "readers (lock (ep w1)) = 0"
    using Cons.prems(4,5) by (simp_all add: w1_def)
  from Cons.IH[OF p1 p2 p3 p4] obtain w' where
    w': "Add_all reqs w1 = Some w'" "fd (ep w') = fd (ep w1)" "lock (ep w') = lock (ep w1)"
    and tab: "\<And>d. fmlookup (connections (ep w')) d =
                  (case find (\<lambda>r. socketFD (snd r) = Inr d) reqs of
                     Some r \<Rightarrow> Some (snd r)
                   | None \<Rightarrow> fmlookup (connections (ep w1)) d)"
    and ker: "\<And>d. fmlookup (interest w') d =
                  (case find (\<lambda>r. socketFD (snd r) = Inr d) reqs of
                     Some r \<Rightarrow> Some (interest_event d)
                   | None \<Rightarrow> fmlookup (interest w1) d)"
    by blast
  have c1: "fmlookup (connections (ep w1)) d = (if d = d0 then Some c else fmlookup (connections (ep w)) d)" for d
    by (simp add: w1_def)
  have k1: "fmlookup (interest w1) d = (if d = d0 then Some (interest_event d0) else fmlookup (interest w) d)" for d
    by (simp add: w1_def)
  have nofind: "find (\<lambda>r. socketFD (snd r) = Inr d0) reqs = None"
    using others by (force simp: find_None_iff)
  have "Add_all (r # reqs) w = Some w'" using add w'(1) r by simp
  moreover have "fd (ep w') = fd (ep w)" "lock (ep w') = lock (ep w)"
    using w'(2,3) by (simp_all add: w1_def)
  moreover have "fmlookup (connections (ep w')) d =
                  (case find (\<lambda>r. socketFD (snd r) = Inr d) (r # reqs) of
                     Some r \<Rightarrow> Some (snd r)
                   | None \<Rightarrow> fmlookup (connections (ep w)) d)" for d
  proof (cases "d = d0")
    case True
    with tab[of d0] nofind r d0 show ?thesis by (simp add: c1)
  next
    case False
    with tab[of d] r d0 show ?thesis by (simp add: c1 split: option.split)
  qed
  moreover have "fmlookup (interest w') d =
                  (case find (\<lambda>r. socketFD (snd r) = Inr d) (r # reqs) of
                     Some r \<Rightarrow> Some (interest_event d)
                   | None \<Rightarrow> fmlookup (interest w) d)" for d
  proof (cases "d = d0")
    case True
    with ker[of d0] nofind r d0 show ?thesis by (simp add: k1)
  next
    case False
    with ker[of d] r d0 show ?thesis by (simp add: k1 split: option.split)
  qed
  ultimately show ?case by blast
qed

lemma holders_none:
  assumes "\<forall>t\<in>set ts. pc t = Ended r"
  shows "holders ts = 0"
proof -
  have "filter (\<lambda>t. holding (pc t)) ts = []"
    using assms by (simp add: filter_empty_conv)
  then show ?thesis by (simp add: holders_def)
qed

lemma all_added:
  assumes ok: "table_ok (map snd reqs) ts w"
    and nok: "notifier_ok (map fst reqs) (map snd reqs) ts w"
    and fin: "\<forall>t\<in>set ts. pc t = Ended (Inr None)"
  shows "\<forall>r\<in>set reqs. fst r = None \<and> (\<exists>d. socketFD (snd r) = Inr d)"
    and "\<And>d. fmlookup (connections (ep w)) d =
           (case find (\<lambda>r. socketFD (snd r) = Inr d) reqs of
              Some r \<Rightarrow> Some (snd r) | None \<Rightarrow> None)"
    and "\<And>d. fmlookup (interest w) d =
           (case find (\<lambda>r. socketFD (snd r) = Inr d) reqs of
              Some r \<Rightarrow> Some (interest_event d) | None \<Rightarrow> None)"
proof -
  have len: "length ts = length reqs" using table_ok_length[OF ok] by simp
  have ended: "pc (ts ! i) = Ended (Inr None)" if "i < length reqs" for i
    using fin that len by simp
  have tab: "\<exists>d. socketFD (snd (reqs ! i)) = Inr d \<and>
               fmlookup (connections (ep w)) d = Some (snd (reqs ! i))"
    if "i < length reqs" for i
  proof -
    from that len have i: "i < length ts" by simp
    have "past_write (pc (ts ! i))" using ended[OF that] by simp
    from table_ok_entry[OF ok i this] show ?thesis using that by simp
  qed
  have ker: "fst (reqs ! i) = None \<and>
             (\<exists>d. socketFD (snd (reqs ! i)) = Inr d \<and>
                  fmlookup (interest w) d = Some (interest_event d))"
    if "i < length reqs" for i
  proof -
    from that len have i: "i < length ts" by simp
    have "past_ctl (pc (ts ! i))" using ended[OF that] by simp
    from notifier_ok_entry[OF nok i this] show ?thesis using that by simp
  qed
  show "\<forall>r\<in>set reqs. fst r = None \<and> (\<exists>d. socketFD (snd r) = Inr d)"
  proof
    fix r assume "r \<in> set reqs"
    then obtain i where i: "i < length reqs" "reqs ! i = r" by (auto simp: in_set_conv_nth)
    from ker[OF i(1)] i(2) show "fst r = None \<and> (\<exists>d. socketFD (snd r) = Inr d)" by auto
  qed
  show "fmlookup (connections (ep w)) d =
           (case find (\<lambda>r. socketFD (snd r) = Inr d) reqs of
              Some r \<Rightarrow> Some (snd r) | None \<Rightarrow> None)" for d
  proof (cases "find (\<lambda>r. socketFD (snd r) = Inr d) reqs")
    case None
    then have none: "\<And>r. r \<in> set reqs \<Longrightarrow> socketFD (snd r) \<noteq> Inr d"
      by (force simp: find_None_iff)
    have "fmlookup (connections (ep w)) d = None"
    proof (cases "fmlookup (connections (ep w)) d")
      case (Some c)
      from table_ok_key[OF ok Some] obtain i where
        i: "i < length ts" "socketFD (map snd reqs ! i) = Inr d" by blast
      with len have "reqs ! i \<in> set reqs" "socketFD (snd (reqs ! i)) = Inr d" by simp_all
      with none show ?thesis by blast
    qed simp
    with None show ?thesis by simp
  next
    case (Some r)
    then obtain i where i: "i < length reqs" "socketFD (snd (reqs ! i)) = Inr d" "r = reqs ! i"
      by (auto simp: find_Some_iff)
    from tab[OF i(1)] i(2) have "fmlookup (connections (ep w)) d = Some (snd (reqs ! i))"
      by auto
    with Some i(3) show ?thesis by simp
  qed
  show "fmlookup (interest w) d =
           (case find (\<lambda>r. socketFD (snd r) = Inr d) reqs of
              Some r \<Rightarrow> Some (interest_event d) | None \<Rightarrow> None)" for d
  proof (cases "find (\<lambda>r. socketFD (snd r) = Inr d) reqs")
    case None
    then have none: "\<And>r. r \<in> set reqs \<Longrightarrow> socketFD (snd r) \<noteq> Inr d"
      by (force simp: find_None_iff)
    have "fmlookup (interest w) d = None"
    proof (cases "fmlookup (interest w) d")
      case (Some e)
      from notifier_ok_key[OF nok Some] obtain i where
        i: "i < length ts" "socketFD (map snd reqs ! i) = Inr d" by blast
      with len have "reqs ! i \<in> set reqs" "socketFD (snd (reqs ! i)) = Inr d" by simp_all
      with none show ?thesis by blast
    qed simp
    with None show ?thesis by simp
  next
    case (Some r)
    then obtain i where i: "i < length reqs" "socketFD (snd (reqs ! i)) = Inr d" "r = reqs ! i"
      by (auto simp: find_Some_iff)
    from ker[OF i(1)] i(2) have "fmlookup (interest w) d = Some (interest_event d)"
      by auto
    with Some show ?thesis by simp
  qed
qed

lemma all_added_table:
  assumes ok: "table_ok cs ts w" and dist: "distinct (map socketFD cs)"
    and fin: "\<forall>t\<in>set ts. pc t = Ended (Inr None)"
  shows "Inr ` fmdom' (connections (ep w)) = set (map socketFD cs)"
    and "\<forall>c\<in>set cs. \<exists>d. socketFD c = Inr d \<and> fmlookup (connections (ep w)) d = Some c"
proof -
  have len: "length cs = length ts" by (rule table_ok_length[OF ok])
  have entry: "\<exists>d. socketFD (cs ! i) = Inr d \<and> fmlookup (connections (ep w)) d = Some (cs ! i)"
    if "i < length ts" for i
  proof -
    from that have "ts ! i \<in> set ts" by simp
    with fin have "pc (ts ! i) = Ended (Inr None)" by blast
    with ok that show ?thesis by (simp add: table_ok_entry)
  qed
  show "\<forall>c\<in>set cs. \<exists>d. socketFD c = Inr d \<and> fmlookup (connections (ep w)) d = Some c"
  proof
    fix c assume "c \<in> set cs"
    then obtain i where "i < length cs" "cs ! i = c" by (auto simp: in_set_conv_nth)
    with entry[of i] len show "\<exists>d. socketFD c = Inr d \<and> fmlookup (connections (ep w)) d = Some c"
      by simp
  qed
  show "Inr ` fmdom' (connections (ep w)) = set (map socketFD cs)"
  proof (intro equalityI subsetI)
    fix x :: "panic + int" assume "x \<in> Inr ` fmdom' (connections (ep w))"
    then obtain d where x: "x = Inr d" and "d \<in> fmdom' (connections (ep w))" by blast
    then obtain c where "fmlookup (connections (ep w)) d = Some c"
      by (auto simp: fmlookup_dom'_iff)
    from table_ok_key[OF ok this] obtain i where i: "i < length ts" "socketFD (cs ! i) = Inr d"
      by blast
    from i(1) len have "cs ! i \<in> set cs" by simp
    then have "socketFD (cs ! i) \<in> socketFD ` set cs" by (rule imageI)
    with i(2) x show "x \<in> set (map socketFD cs)" by simp
  next
    fix x :: "panic + int" assume "x \<in> set (map socketFD cs)"
    then obtain i where i: "i < length cs" and x: "x = socketFD (cs ! i)"
      by (auto simp: in_set_conv_nth)
    with entry[of i] len obtain d where "socketFD (cs ! i) = Inr d"
      "fmlookup (connections (ep w)) d = Some (cs ! i)" by auto
    then have "x = Inr d" "d \<in> fmdom' (connections (ep w))"
      using x by (simp_all add: fmlookup_dom'_iff)
    then show "x \<in> Inr ` fmdom' (connections (ep w))" by blast
  qed
qed

lemma all_added_len:
  assumes ok: "table_ok cs ts w" and dist: "distinct (map socketFD cs)"
    and fin: "\<forall>t\<in>set ts. pc t = Ended (Inr None)"
  shows "len (connections (ep w)) = length cs"
proof -
  have "card (fmdom' (connections (ep w))) =
          card ((Inr :: int \<Rightarrow> panic + int) ` fmdom' (connections (ep w)))"
    by (simp add: card_image)
  also have "\<dots> = card (set (map socketFD cs))"
    by (simp only: all_added_table(1)[OF ok dist fin])
  also have "\<dots> = length (map socketFD cs)" by (rule distinct_card[OF dist])
  finally show ?thesis by (simp add: len_def)
qed

lemma all_added_sequentially:
  assumes made: "MkEpoll made = Inr w0"
    and ok: "table_ok (map snd reqs) ts w"
    and nok: "notifier_ok (map fst reqs) (map snd reqs) ts w"
    and ex: "exclusive (fd (ep w0)) ts w"
    and dist: "distinct (map socketFD (map snd reqs))"
    and fin: "\<forall>t\<in>set ts. pc t = Ended (Inr None)"
  shows "\<exists>w'. Add_all reqs w0 = Some w' \<and> ep w' = ep w \<and> interest w' = interest w"
proof -
  note fresh = MkEpoll_fresh[OF made]
  note conc = all_added[OF ok nok fin]
  have p3: "\<forall>r\<in>set reqs. \<forall>d. socketFD (snd r) = Inr d \<longrightarrow> fmlookup (interest w0) d = None"
    by (simp add: fresh(2))
  from Add_all_runs[OF conc(1) dist p3 fresh(3,4)] obtain w' where
    w': "Add_all reqs w0 = Some w'" "fd (ep w') = fd (ep w0)" "lock (ep w') = lock (ep w0)"
    and tab: "\<And>d. fmlookup (connections (ep w')) d =
                  (case find (\<lambda>r. socketFD (snd r) = Inr d) reqs of
                     Some r \<Rightarrow> Some (snd r)
                   | None \<Rightarrow> fmlookup (connections (ep w0)) d)"
    and ker: "\<And>d. fmlookup (interest w') d =
                  (case find (\<lambda>r. socketFD (snd r) = Inr d) reqs of
                     Some r \<Rightarrow> Some (interest_event d)
                   | None \<Rightarrow> fmlookup (interest w0) d)"
    by blast
  have t: "connections (ep w') = connections (ep w)"
  proof (rule fmap_ext)
    fix d show "fmlookup (connections (ep w')) d = fmlookup (connections (ep w)) d"
      by (simp add: tab conc(2) fresh(1) split: option.split)
  qed
  have k: "interest w' = interest w"
  proof (rule fmap_ext)
    fix d show "fmlookup (interest w') d = fmlookup (interest w) d"
      by (simp add: ker conc(3) fresh(2) split: option.split)
  qed
  from ex have f: "fd (ep w) = fd (ep w0)" and r: "readers (lock (ep w)) = 0"
    and h: "holders ts = (if writer (lock (ep w)) then 1 else 0)"
    by (simp_all add: exclusive_def)
  from h holders_none[OF fin] have nw: "\<not> writer (lock (ep w))" by (simp split: if_splits)
  have l: "lock (ep w') = lock (ep w)"
    using w'(3) fresh(3,4) nw r by (intro RWMutex.equality) simp_all
  have "ep w' = ep w"
    using w'(2) f t l by (intro epoll.equality) simp_all
  with w'(1) k show ?thesis by blast
qed

text \<open>
  C9: on a multiplexer just made, let any number of calls of \<^verbatim>\<open>Add\<close>, on handles with
  distinct descriptors, run under any schedule. At every moment at most one call is between
  \<^verbatim>\<open>Lock\<close> and \<^verbatim>\<open>Unlock\<close>. And once all the calls have returned without an error, the
  table has exactly as many entries as there were calls: its keys are the handles'
  descriptors, each descriptor maps to its handle, and the multiplexer and the interest
  list are those that the same calls of \<^verbatim>\<open>Add\<close>, made one after another, leave.
\<close>

theorem concurrent_Adds_fill_table:
  assumes made: "MkEpoll made = Inr w0"
    and dist: "distinct (map socketFD (map snd reqs))"
    and run: "run sched (map enter reqs, w0) = (ts, w)"
  shows "holders ts \<le> 1 \<and>
         ((\<forall>t\<in>set ts. pc t = Ended (Inr None)) \<longrightarrow>
            len (connections (ep w)) = length reqs \<and>
            Inr ` fmdom' (connections (ep w)) = set (map socketFD (map snd reqs)) \<and>
            (\<forall>c\<in>set (map snd reqs).
               \<exists>d. socketFD c = Inr d \<and> fmlookup (connections (ep w)) d = Some c) \<and>
            (\<exists>w'. Add_all reqs w0 = Some w' \<and> ep w' = ep w \<and> interest w' = interest w))"
proof -
  note fresh = MkEpoll_fresh[OF made]
  have t0: "table_ok (map snd reqs) (map enter reqs) w0"
    by (rule table_ok_enter[OF fresh(1)])
  have n0: "notifier_ok (map fst reqs) (map snd reqs) (map enter reqs) w0"
    by (rule notifier_ok_enter[OF fresh(2)])
  have e0: "exclusive (fd (ep w0)) (map enter reqs) w0"
    using fresh(3,4) by (simp add: exclusive_def holders_enter)
  from run_invariant[OF t0 n0 e0 dist run]
  have ok: "table_ok (map snd reqs) ts w"
    and nok: "notifier_ok (map fst reqs) (map snd reqs) ts w"
    and ex: "exclusive (fd (ep w0)) ts w" by simp_all
  from ex have one: "holders ts \<le> 1" by (simp add: exclusive_def split: if_splits)
  have all: "len (connections (ep w)) = length reqs \<and>
            Inr ` fmdom' (connections (ep w)) = set (map socketFD (map snd reqs)) \<and>
            (\<forall>c\<in>set (map snd reqs).
               \<exists>d. socketFD c = Inr d \<and> fmlookup (connections (ep w)) d = Some c) \<and>
            (\<exists>w'. Add_all reqs w0 = Some w' \<and> ep w' = ep w \<and> interest w' = interest w)"
    if fin: "\<forall>t\<in>set ts. pc t = Ended (Inr None)"
    using all_added_len[OF ok dist fin] all_added_table[OF ok dist fin]
      all_added_sequentially[OF made ok nok ex dist fin] by simp
  from one show ?thesis
  proof (rule conjI)
    show "(\<forall>t\<in>set ts. pc t = Ended (Inr None)) \<longrightarrow>
            len (connections (ep w)) = length reqs \<and>
            Inr ` fmdom' (connections (ep w)) = set (map socketFD (map snd reqs)) \<and>
            (\<forall>c\<in>set (map snd reqs).
               \<exists>d. socketFD c = Inr d \<and> fmlookup (connections (ep w)) d = Some c) \<and>
            (\<exists>w'. Add_all reqs w0 = Some w' \<and> ep w' = ep w \<and> interest w' = interest w)"
      by (rule impI) (rule all)
  qed
qed

lemma three_adds_run:
  "run interleaved (map enter three_adds, started) =
     ([\<lparr>handle = TCPConn 7, ctl_fault = None, pc = Ended (Inr None)\<rparr>,
       \<lparr>handle = TCPConn 8, ctl_fault = None, pc = Ended (Inr None)\<rparr>,
       \<lparr>handle = TCPConn 9, ctl_fault = None, pc = Ended (Inr None)\<rparr>],
      \<lparr>ep = \<lparr>fd = 3,
               connections = fmupd 9 (TCPConn 9) (fmupd 7 (TCPConn 7) (fmupd 8 (TCPConn 8) fmempty)),
               lock = \<lparr>writer = False, readers = 0\<rparr>\<rparr>,
       interest = fmupd 9 (interest_event 9) (fmupd 8 (interest_event 8) (fmupd 7 (interest_event 7) fmempty)),
       printed = []\<rparr>)"
  by (simp add: interleaved_def three_adds_def enter_def started_def Add_step_def socketFD_TCPConn
     EpollCtl_def Lock_def Unlock_def log_total_def len_def Let_def)

text \<open>A run of it: three calls, interleaved, on descriptors 7, 8 and 9.\<close>

theorem concurrent_Adds_fill_table_witness:
  "MkEpoll (Inr 3) = Inr started \<and>
   distinct (map socketFD (map snd three_adds)) \<and>
   pc (fst (run interleaved (map enter three_adds, started)) ! 0) = Ended (Inr None) \<and>
   pc (fst (run interleaved (map enter three_adds, started)) ! 1) = Ended (Inr None) \<and>
   pc (fst (run interleaved (map enter three_adds, started)) ! 2) = Ended (Inr None) \<and>
   len (connections (ep (snd (run interleaved (map enter three_adds, started))))) = 3 \<and>
   fmlookup (connections (ep (snd (run interleaved (map enter three_adds, started))))) 8 = Some (TCPConn 8) \<and>
   (\<exists>w'. Add_all three_adds started = Some w' \<and>
         ep w' = ep (snd (run interleaved (map enter three_adds, started))) \<and>
         interest w' = interest (snd (run interleaved (map enter three_adds, started))))"
proof -
  have d: "distinct (map socketFD (map snd three_adds))"
    by (simp add: three_adds_def socketFD_TCPConn)
  have r: "run interleaved (map enter three_adds, started) =
      (fst (run interleaved (map enter three_adds, started)),
       snd (run interleaved (map enter three_adds, started)))" by simp
  have fin: "\<forall>t\<in>set (fst (run interleaved (map enter three_adds, started))). pc t = Ended (Inr None)"
    by (simp add: three_adds_run)
  note t = concurrent_Adds_fill_table[OF MkEpoll_started d r, THEN conjunct2, THEN mp, OF fin]
  from t have "len (connections (ep (snd (run interleaved (map enter three_adds, started))))) = length three_adds"
    by (rule conjunct1)
  then have l: "len (connections (ep (snd (run interleaved (map enter three_adds, started))))) = 3"
    by (simp add: three_adds_def)
  note s = t[THEN conjunct2, THEN conjunct2, THEN conjunct2]
  have "pc (fst (run interleaved (map enter three_adds, started)) ! 0) = Ended (Inr None)"
    "pc (fst (run interleaved (map enter three_adds, started)) ! 1) = Ended (Inr None)"
    "pc (fst (run interleaved (map enter three_adds, started)) ! 2) = Ended (Inr None)"
    "fmlookup (connections (ep (snd (run interleaved (map enter three_adds, started))))) 8 = Some (TCPConn 8)"
    by (simp_all add: three_adds_run)
  with l s show ?thesis using MkEpoll_started d by (intro conjI)
qed



text \<open>A call that runs alone goes through its five steps to what \<^verbatim>\<open>Add\<close> returns.\<close>

lemma Add_step_Ended: "pc t = Ended r \<Longrightarrow> Add_step t w = None"
  by (simp add: Add_step_def)

lemma Add_alone:
  assumes "Add fault c w = Some (r, w')"
  shows "run [0, 0, 0, 0, 0] ([enter (fault, c)], w) =
           ([\<lparr>handle = c, ctl_fault = fault, pc = Ended r\<rparr>], w')"
  using assms
proof (cases rule: Add_cases)
  case (panic p)
  then show ?thesis by (simp add: enter_def Add_step_def)
next
  case (failed d er)
  obtain e k where ek: "EpollCtl fault (interest w) (fd (ep w)) EPOLL_CTL_ADD d (Some (interest_event d)) = (e, k)"
    by (cases "EpollCtl fault (interest w) (fd (ep w)) EPOLL_CTL_ADD d (Some (interest_event d))")
  show ?thesis
  proof (cases e)
    case None
    with ek have ok: "EpollCtl fault (interest w) (fd (ep w)) EPOLL_CTL_ADD d (Some (interest_event d)) = (None, k)"
      by simp
    from Add_ctl_ok[OF failed(1) ok] assms failed(2) show ?thesis
      by (simp split: if_splits)
  next
    case (Some er')
    with ek have f: "EpollCtl fault (interest w) (fd (ep w)) EPOLL_CTL_ADD d (Some (interest_event d)) = (Some er', k)"
      by simp
    then have k: "k = interest w" by (rule EpollCtl_failure)
    from f have "fst (EpollCtl fault (interest w) (fd (ep w)) EPOLL_CTL_ADD d (Some (interest_event d))) = Some er'"
      by simp
    from Add_ctl_failure[OF failed(1) this] assms failed(2) have "er' = er" by simp
    with f k failed show ?thesis by (simp add: enter_def Add_step_def)
  qed
next
  case (ok d)
  then have k: "EpollCtl fault (interest w) (fd (ep w)) EPOLL_CTL_ADD d (Some (interest_event d)) =
      (None, fmupd d (interest_event d) (interest w))"
  proof -
    obtain e k where ek: "EpollCtl fault (interest w) (fd (ep w)) EPOLL_CTL_ADD d (Some (interest_event d)) = (e, k)"
      by (cases "EpollCtl fault (interest w) (fd (ep w)) EPOLL_CTL_ADD d (Some (interest_event d))")
    show ?thesis
    proof (cases e)
      case None
      with ek show ?thesis by (simp add: EpollCtl_ADD_ok)
    next
      case (Some er)
      with ek have "fst (EpollCtl fault (interest w) (fd (ep w)) EPOLL_CTL_ADD d (Some (interest_event d))) = Some er"
        by simp
      from Add_ctl_failure[OF ok(1) this] assms ok(2) show ?thesis by simp
    qed
  qed
  from Add_ctl_ok[OF ok(1) k] assms have free: "\<not> writer (lock (ep w))" "readers (lock (ep w)) = 0"
    by (simp_all split: if_splits)
  have l: "(lock (ep w))\<lparr>writer := True, writer := False\<rparr> = lock (ep w)"
    using free(1) by simp
  show ?thesis
    using ok k free l by (simp add: enter_def Add_step_def Lock_def Unlock_def Let_def)
qed

end
